theory Spec2Isabelle
  imports Main "HOL-Library.Sublist"
begin

section \<open>Data model of utils.py\<close>

text \<open>
  A board is a list of rows of cell symbols (\<open>List[List[str]]\<close>), a coordinate a pair of
  Python integers (row, column) and a path a list of coordinates.
\<close>

type_synonym coordinate = "int \<times> int"
type_synonym path = "coordinate list"
type_synonym board = "string list list"

datatype py_error = IndexError | ValueError

text \<open>
  Python list indexing \<open>xs[i]\<close>: an index from \<open>-len(xs)\<close> to \<open>-1\<close> counts from the
  end of the list, and an index outside \<open>-len(xs) .. len(xs) - 1\<close> raises IndexError.
\<close>

definition py_index :: "'a list \<Rightarrow> int \<Rightarrow> py_error + 'a" where
  "py_index xs i =
     (if 0 \<le> i \<and> i < int (length xs) then Inr (xs ! nat i)
      else if i < 0 \<and> - int (length xs) \<le> i then Inr (xs ! nat (int (length xs) + i))
      else Inl IndexError)"

text \<open>Python slicing \<open>s[:i]\<close>: a negative bound counts from the end, and nothing raises.\<close>

definition py_slice_to :: "'a list \<Rightarrow> int \<Rightarrow> 'a list" where
  "py_slice_to s i = (if i < 0 then take (nat (int (length s) + i)) s else take (nat i) s)"

text \<open>The dictionary \<open>NEIGHBOURS_DELTA\<close>, in its insertion order.\<close>

definition NEIGHBOURS_DELTA :: "(string \<times> (int \<times> int)) list" where
  "NEIGHBOURS_DELTA =
     [(''N'', (-1, 0)), (''NE'', (-1, 1)), (''E'', (0, 1)), (''SE'', (1, 1)),
      (''S'', (1, 0)), (''SW'', (1, -1)), (''W'', (0, -1)), (''NW'', (-1, -1))]"

definition NEIGHBOURS_DELTA_values :: "(int \<times> int) list" where
  "NEIGHBOURS_DELTA_values = map snd NEIGHBOURS_DELTA"

text \<open>\<open>__get_value_by_coordinate\<close>: \<open>board[row][col]\<close>.\<close>

definition get_value_by_coordinate :: "board \<Rightarrow> coordinate \<Rightarrow> py_error + string" where
  "get_value_by_coordinate board coordinate =
     (case coordinate of (row, col) \<Rightarrow>
        (case py_index board row of
           Inl e \<Rightarrow> Inl e
         | Inr board_row \<Rightarrow> py_index board_row col))"

text \<open>\<open>__are_neighbours\<close>: some delta leads from the first coordinate to the second.\<close>

definition are_neighbours :: "coordinate \<Rightarrow> coordinate \<Rightarrow> bool" where
  "are_neighbours coordinate1 coordinate2 =
     (case coordinate1 of (row1, col1) \<Rightarrow>
        list_ex (\<lambda>(row_delta, col_delta). (row1 + row_delta, col1 + col_delta) = coordinate2)
          NEIGHBOURS_DELTA_values)"

text \<open>
  \<open>is_valid_path\<close>. The loop over \<open>range(len(path) - 1)\<close> checks each pair of consecutive
  cells and collects the values of all cells but the last; \<open>path[-1]\<close> raises IndexError on
  the empty path. The result is \<open>Some word\<close> for the returned word and \<open>None\<close> for
  Python's \<open>None\<close>.
\<close>

fun is_valid_path_loop :: "board \<Rightarrow> path \<Rightarrow> string \<Rightarrow> py_error + string option" where
  "is_valid_path_loop board (c1 # c2 # rest) word =
     (if \<not> are_neighbours c1 c2 then Inr None
      else (case get_value_by_coordinate board c1 of
              Inl e \<Rightarrow> Inl e
            | Inr v \<Rightarrow> is_valid_path_loop board (c2 # rest) (word @ v)))"
| "is_valid_path_loop board [c] word = Inr (Some word)"
| "is_valid_path_loop board [] word = Inr (Some word)"

definition is_valid_path :: "board \<Rightarrow> path \<Rightarrow> string list \<Rightarrow> py_error + string option" where
  "is_valid_path board path words =
     (case is_valid_path_loop board path [] of
        Inl e \<Rightarrow> Inl e
      | Inr None \<Rightarrow> Inr None
      | Inr (Some word) \<Rightarrow>
          (if path = [] then Inl IndexError
           else (case get_value_by_coordinate board (last path) of
                   Inl e \<Rightarrow> Inl e
                 | Inr v \<Rightarrow> if word @ v \<in> set words then Inr (Some (word @ v)) else Inr None)))"

text \<open>\<open>__is_coordinate_in_board\<close>; \<open>board[0]\<close> is read only when the board has a row.\<close>

definition is_coordinate_in_board :: "board \<Rightarrow> coordinate \<Rightarrow> bool" where
  "is_coordinate_in_board board coordinate =
     (0 \<le> fst coordinate \<and> fst coordinate < int (length board) \<and>
      0 \<le> snd coordinate \<and> snd coordinate < int (length (hd board)))"

definition find_neighbour_coordinate :: "coordinate \<Rightarrow> int \<times> int \<Rightarrow> coordinate" where
  "find_neighbour_coordinate coordinate delta =
     (fst coordinate + fst delta, snd coordinate + snd delta)"

text \<open>\<open>__filter_words_set_by_prefix\<close>; \<open>s.startswith(prefix)\<close> is \<^const>\<open>prefix\<close>.\<close>

definition filter_words_set_by_prefix :: "string set \<Rightarrow> string \<Rightarrow> string set" where
  "filter_words_set_by_prefix words_set pre = Set.filter (\<lambda>s. prefix pre s) words_set"

section \<open>The backtracking search of utils.py\<close>

text \<open>
  \<open>__backtracking_action\<close>, with the dataset passed in and returned. The second function
  is its \<open>for\<close> loop over the remaining deltas of \<open>NEIGHBOURS_DELTA.values()\<close>;
  \<open>curr_path[-1]\<close> raises IndexError on an empty path, and so does the reading of a cell
  that the board does not hold. Appending the neighbour and popping it after the recursive
  call is the call on the extended path.
\<close>

function backtracking_action ::
    "(int \<Rightarrow> path \<Rightarrow> string \<Rightarrow> bool) \<Rightarrow> ('d \<Rightarrow> path \<Rightarrow> string \<Rightarrow> 'd) \<Rightarrow> int \<Rightarrow> board \<Rightarrow>
     string set \<Rightarrow> 'd \<Rightarrow> path \<Rightarrow> string \<Rightarrow> py_error + 'd"
  and try_neighbours ::
    "(int \<Rightarrow> path \<Rightarrow> string \<Rightarrow> bool) \<Rightarrow> ('d \<Rightarrow> path \<Rightarrow> string \<Rightarrow> 'd) \<Rightarrow> int \<Rightarrow> board \<Rightarrow>
     string set \<Rightarrow> 'd \<Rightarrow> path \<Rightarrow> string \<Rightarrow> (int \<times> int) list \<Rightarrow> py_error + 'd"
where
  "backtracking_action stop_condition data_update_func n board words_set dataset curr_path curr_word =
     (if stop_condition n curr_path curr_word then
        (if curr_word \<in> words_set then Inr (data_update_func dataset curr_path curr_word)
         else Inr dataset)
      else try_neighbours stop_condition data_update_func n board words_set dataset
             curr_path curr_word NEIGHBOURS_DELTA_values)"
| "try_neighbours stop_condition data_update_func n board words_set dataset curr_path curr_word [] =
     Inr dataset"
| "try_neighbours stop_condition data_update_func n board words_set dataset curr_path curr_word
       (delta # deltas) =
     (if curr_path = [] then Inl IndexError
      else if \<not> is_coordinate_in_board board (find_neighbour_coordinate (last curr_path) delta) then
        try_neighbours stop_condition data_update_func n board words_set dataset
          curr_path curr_word deltas
      else if find_neighbour_coordinate (last curr_path) delta \<in> set curr_path then
        try_neighbours stop_condition data_update_func n board words_set dataset
          curr_path curr_word deltas
      else
        (case get_value_by_coordinate board (find_neighbour_coordinate (last curr_path) delta) of
           Inl e \<Rightarrow> Inl e
         | Inr v \<Rightarrow>
             (if filter_words_set_by_prefix words_set (curr_word @ v) = {} then
                try_neighbours stop_condition data_update_func n board words_set dataset
                  curr_path curr_word deltas
              else
                (case backtracking_action stop_condition data_update_func n board
                        (filter_words_set_by_prefix words_set (curr_word @ v)) dataset
                        (curr_path @ [find_neighbour_coordinate (last curr_path) delta])
                        (curr_word @ v) of
                   Inl e \<Rightarrow> Inl e
                 | Inr dataset' \<Rightarrow>
                     try_neighbours stop_condition data_update_func n board words_set dataset'
                       curr_path curr_word deltas))))"
  by pat_completeness auto
termination
proof (relation "inv_image (less_than <*lex*> less_than)
    (\<lambda>x. case x of
       Inl (stop_condition, data_update_func, n, board, words_set, dataset, curr_path, curr_word) \<Rightarrow>
         (card ({c. is_coordinate_in_board board c} - set curr_path), 9 :: nat)
     | Inr (stop_condition, data_update_func, n, board, words_set, dataset, curr_path, curr_word, deltas) \<Rightarrow>
         (card ({c. is_coordinate_in_board board c} - set curr_path), length deltas))",
    goal_cases)
  case 1
  show ?case by (intro wf_inv_image wf_lex_prod wf_less_than)
next
  case 2
  show ?case by (simp add: NEIGHBOURS_DELTA_values_def NEIGHBOURS_DELTA_def)
next
  case 3
  show ?case by simp
next
  case 4
  show ?case by simp
next
  case 5
  show ?case by simp
next
  case (6 stop_condition data_update_func n board words_set dataset curr_path curr_word delta deltas v)
  let ?B = "{c. is_coordinate_in_board board c}"
  let ?nb = "find_neighbour_coordinate (last curr_path) delta"
  have "?B \<subseteq> {0 ..< int (length board)} \<times> {0 ..< int (length (hd board))}"
    by (auto simp: is_coordinate_in_board_def)
  then have fin: "finite ?B" by (rule finite_subset) simp
  from 6 have "?nb \<in> ?B - set curr_path" by simp
  then have "?B - set (curr_path @ [?nb]) \<subset> ?B - set curr_path" by auto
  with fin have "card (?B - set (curr_path @ [?nb])) < card (?B - set curr_path)"
    by (intro psubset_card_mono) auto
  then show ?case by simp
next
  case 7
  show ?case by simp
qed

text \<open>
  \<open>__backtracking_start\<close>. The two nested \<open>for\<close> loops visit the coordinates of the
  board row by row, each row over its own length; \<open>words_set\<close> is \<open>set(words)\<close>, and the
  recursion starts with the whole set, not the filtered one.
\<close>

definition start_coordinates :: "board \<Rightarrow> coordinate list" where
  "start_coordinates board =
     concat (map (\<lambda>row_index.
                    map (\<lambda>col_index. (int row_index, int col_index))
                      [0 ..< length (board ! row_index)])
               [0 ..< length board])"

fun backtracking_from ::
    "(int \<Rightarrow> path \<Rightarrow> string \<Rightarrow> bool) \<Rightarrow> ('d \<Rightarrow> path \<Rightarrow> string \<Rightarrow> 'd) \<Rightarrow> int \<Rightarrow> board \<Rightarrow>
     string set \<Rightarrow> 'd \<Rightarrow> coordinate list \<Rightarrow> py_error + 'd" where
  "backtracking_from stop_condition data_update_func n board words_set dataset [] = Inr dataset"
| "backtracking_from stop_condition data_update_func n board words_set dataset
       (coordinate # coordinates) =
     (case get_value_by_coordinate board coordinate of
        Inl e \<Rightarrow> Inl e
      | Inr curr_word \<Rightarrow>
          (if filter_words_set_by_prefix words_set curr_word = {} then
             backtracking_from stop_condition data_update_func n board words_set dataset coordinates
           else
             (case backtracking_action stop_condition data_update_func n board words_set dataset
                     [coordinate] curr_word of
                Inl e \<Rightarrow> Inl e
              | Inr dataset' \<Rightarrow>
                  backtracking_from stop_condition data_update_func n board words_set dataset'
                    coordinates)))"

definition backtracking_start ::
    "(int \<Rightarrow> path \<Rightarrow> string \<Rightarrow> bool) \<Rightarrow> ('d \<Rightarrow> path \<Rightarrow> string \<Rightarrow> 'd) \<Rightarrow> int \<Rightarrow> board \<Rightarrow>
     string list \<Rightarrow> 'd \<Rightarrow> py_error + 'd" where
  "backtracking_start stop_condition data_update_func n board words dataset =
     backtracking_from stop_condition data_update_func n board (set words) dataset
       (start_coordinates board)"

text \<open>\<open>find_length_n_paths\<close>: stop at \<open>len(path) == n\<close>, append a copy of the path.\<close>

definition find_length_n_paths :: "int \<Rightarrow> board \<Rightarrow> string list \<Rightarrow> py_error + path list" where
  "find_length_n_paths n board words =
     backtracking_start (\<lambda>n path word. int (length path) = n)
       (\<lambda>lst_paths path word. lst_paths @ [path]) n board words []"

text \<open>\<open>find_length_n_words\<close>: stop at \<open>len(word) == n\<close>, append a copy of the path.\<close>

definition find_length_n_words :: "int \<Rightarrow> board \<Rightarrow> string list \<Rightarrow> py_error + path list" where
  "find_length_n_words n board words =
     backtracking_start (\<lambda>n path word. int (length word) = n)
       (\<lambda>lst_paths path word. lst_paths @ [path]) n board words []"

text \<open>
  \<open>max_score_paths\<close>. The dictionary \<open>dict_paths\<close> keeps its keys in insertion order and
  is an association list; its update adds the key with an empty list when it is new and
  appends a copy of the path to the list of the key.
\<close>

definition update_dict_paths ::
    "(string \<times> path list) list \<Rightarrow> path \<Rightarrow> string \<Rightarrow> (string \<times> path list) list" where
  "update_dict_paths dict_paths path word =
     map (\<lambda>(key, lst_paths). if key = word then (key, lst_paths @ [path]) else (key, lst_paths))
       (if word \<notin> set (map fst dict_paths) then dict_paths @ [(word, [])] else dict_paths)"

text \<open>The loop \<open>for length in word_lengths\<close>, one search for each length.\<close>

fun search_word_lengths ::
    "board \<Rightarrow> string list \<Rightarrow> (string \<times> path list) list \<Rightarrow> int list \<Rightarrow>
     py_error + (string \<times> path list) list" where
  "search_word_lengths board words dict_paths [] = Inr dict_paths"
| "search_word_lengths board words dict_paths (len # word_lengths) =
     (case backtracking_start (\<lambda>n path word. int (length word) = n) update_dict_paths
             len board words dict_paths of
        Inl e \<Rightarrow> Inl e
      | Inr dict_paths' \<Rightarrow> search_word_lengths board words dict_paths' word_lengths)"

text \<open>
  \<open>max(lst_paths, key=lambda p: len(p))\<close>: the first element of greatest length; ValueError
  on the empty list.
\<close>

fun py_max_by_len :: "path list \<Rightarrow> py_error + path" where
  "py_max_by_len [] = Inl ValueError"
| "py_max_by_len (p # ps) =
     Inr (foldl (\<lambda>best q. if length best < length q then q else best) p ps)"

text \<open>The loop \<open>for lst_paths in dict_paths.values()\<close>.\<close>

fun longest_paths :: "path list list \<Rightarrow> py_error + path list" where
  "longest_paths [] = Inr []"
| "longest_paths (lst_paths # rest) =
     (case py_max_by_len lst_paths of
        Inl e \<Rightarrow> Inl e
      | Inr p \<Rightarrow> (case longest_paths rest of Inl e \<Rightarrow> Inl e | Inr ps \<Rightarrow> Inr (p # ps)))"

text \<open>
  Python does not fix the order in which \<open>for length in word_lengths\<close> visits the set
  \<open>set(map(len, words))\<close>. The order is the first argument here: a list
  \<open>word_lengths\<close> without repetition whose elements are the lengths of the words.
\<close>

definition iteration_order :: "int list \<Rightarrow> string list \<Rightarrow> bool" where
  "iteration_order word_lengths words =
     (distinct word_lengths \<and> set word_lengths = set (map (\<lambda>s. int (length s)) words))"

definition max_score_paths :: "int list \<Rightarrow> board \<Rightarrow> string list \<Rightarrow> py_error + path list" where
  "max_score_paths word_lengths board words =
     (case search_word_lengths board words [] word_lengths of
        Inl e \<Rightarrow> Inl e
      | Inr dict_paths \<Rightarrow> longest_paths (map snd dict_paths))"

section \<open>The class Model of model.py\<close>

record model =
  board :: board
  words_collection :: "string set"
  words_found :: "string set"
  current_word :: string
  current_path :: path
  score :: int

text \<open>\<open>Model.__init__\<close>.\<close>

definition init_model :: model where
  "init_model =
     \<lparr>board = [[]], words_collection = {}, words_found = {}, current_word = [],
      current_path = [], score = 0\<rparr>"

text \<open>
  \<open>Model.update_word_and_path\<close>. \<open>list.remove\<close> deletes the first occurrence of the
  coordinate (\<^const>\<open>remove1\<close>); it cannot raise here, since the coordinate is the last
  element. Both branches read \<open>self.__board[y][x]\<close>, which may raise IndexError.
\<close>

definition update_word_and_path :: "model \<Rightarrow> coordinate \<Rightarrow> py_error + model" where
  "update_word_and_path m board_coordinate =
     (if current_path m \<noteq> [] \<and> last (current_path m) = board_coordinate then
        (let new_path = remove1 board_coordinate (current_path m) in
         case get_value_by_coordinate (board m) board_coordinate of
           Inl e \<Rightarrow> Inl e
         | Inr v \<Rightarrow>
             (let slice_index = int (length (current_word m)) - int (length v) in
              Inr (m\<lparr>current_path := new_path,
                     current_word := py_slice_to (current_word m) slice_index\<rparr>)))
      else
        (case get_value_by_coordinate (board m) board_coordinate of
           Inl e \<Rightarrow> Inl e
         | Inr v \<Rightarrow>
             Inr (m\<lparr>current_word := current_word m @ v,
                    current_path := current_path m @ [board_coordinate]\<rparr>)))"

text \<open>
  \<open>Model.__increase_score\<close> adds \<open>int(math.pow(len(path), 2))\<close>. \<open>math.pow\<close> works on
  doubles, where the square of a length below \<open>2 ^ 26\<close> is exact; the model is the exact
  square, and the statements about the score are restricted to such lengths.
\<close>

definition increase_score :: "model \<Rightarrow> model" where
  "increase_score m = m\<lparr>score := score m + (int (length (current_path m))) ^ 2\<rparr>"

text \<open>The four messages of \<open>Model.check_word\<close> (f-strings around the current word).\<close>

definition msg_not_a_word :: "string \<Rightarrow> string" where
  "msg_not_a_word w = [CHR 0x27] @ w @ [CHR 0x27] @ '' is not a word''"

definition msg_already_found :: "string \<Rightarrow> string" where
  "msg_already_found w = ''You already found '' @ [CHR 0x27] @ w @ [CHR 0x27]"

definition msg_found :: "string \<Rightarrow> string" where
  "msg_found w = ''You found '' @ [CHR 0x27] @ w @ [CHR 0x27]"

definition msg_found_nice_work :: "string \<Rightarrow> string" where
  "msg_found_nice_work w = ''You found '' @ [CHR 0x27] @ w @ [CHR 0x27] @ ''. Nice work!''"

text \<open>\<open>Model.check_word\<close>: the returned message and the new state.\<close>

definition check_word :: "model \<Rightarrow> string \<times> model" where
  "check_word m =
     (if current_word m \<notin> words_collection m then (msg_not_a_word (current_word m), m)
      else if current_word m \<in> words_found m then (msg_already_found (current_word m), m)
      else
        (let m1 = m\<lparr>words_found := insert (current_word m) (words_found m)\<rparr>;
             m2 = increase_score m1
         in if length (current_word m2) < 6 then (msg_found (current_word m2), m2)
            else (msg_found_nice_work (current_word m2), m2)))"

text \<open>\<open>Model.reset_current_input\<close>.\<close>

definition reset_current_input :: "model \<Rightarrow> model" where
  "reset_current_input m = m\<lparr>current_word := [], current_path := []\<rparr>"

text \<open>\<open>Model.__is_coordinate_in_boundaries\<close>.\<close>

definition is_coordinate_in_boundaries :: "model \<Rightarrow> coordinate \<Rightarrow> bool" where
  "is_coordinate_in_boundaries m coordinate =
     (0 \<le> fst coordinate \<and> fst coordinate < int (length (board m)) \<and>
      0 \<le> snd coordinate \<and> snd coordinate < int (length (hd (board m))))"

text \<open>
  \<open>Model.get_buttons_to_enable\<close>: \<open>self.__current_path[-1]\<close> raises IndexError on the
  empty path; the loop appends the neighbours that pass both tests, in the order of the deltas.
\<close>

definition get_buttons_to_enable :: "model \<Rightarrow> py_error + coordinate list" where
  "get_buttons_to_enable m =
     (if current_path m = [] then Inl IndexError
      else
        (case last (current_path m) of (base_row, base_col) \<Rightarrow>
           Inr ((base_row, base_col) #
                filter (\<lambda>neighbour_coordinate.
                          is_coordinate_in_boundaries m neighbour_coordinate \<and>
                          neighbour_coordinate \<notin> set (current_path m))
                  (map (\<lambda>(delta_row, delta_col). (base_row + delta_row, base_col + delta_col))
                     NEIGHBOURS_DELTA_values))))"

section \<open>The board button callback of boggle.py\<close>

text \<open>
  \<open>Controller.board_button_callback\<close> updates the model and then tells the window which
  board buttons to enable: the list returned by the model when the path is not empty, and
  every button otherwise. The command sent to the window is the second component.
\<close>

datatype buttons_command = Update_board_buttons_state "coordinate list" | Set_all_board_buttons_normal

definition board_button_callback :: "model \<Rightarrow> coordinate \<Rightarrow> py_error + model \<times> buttons_command" where
  "board_button_callback m coordinate =
     (case update_word_and_path m coordinate of
        Inl e \<Rightarrow> Inl e
      | Inr m' \<Rightarrow>
          (if current_path m' \<noteq> [] then
             (case get_buttons_to_enable m' of
                Inl e \<Rightarrow> Inl e
              | Inr buttons_to_enable \<Rightarrow> Inr (m', Update_board_buttons_state buttons_to_enable))
           else Inr (m', Set_all_board_buttons_normal)))"

section \<open>Notions of the data model used in the statements\<close>

text \<open>A coordinate lies on the board when its row exists and its column exists in that row.\<close>

definition cell_exists :: "board \<Rightarrow> coordinate \<Rightarrow> bool" where
  "cell_exists b c =
     (0 \<le> fst c \<and> fst c < int (length b) \<and> 0 \<le> snd c \<and> snd c < int (length (b ! nat (fst c))))"

text \<open>The spelled word of a path: the cell values along it, concatenated.\<close>

fun spelled_word :: "board \<Rightarrow> path \<Rightarrow> py_error + string" where
  "spelled_word b [] = Inr []"
| "spelled_word b (c # cs) =
     (case get_value_by_coordinate b c of
        Inl e \<Rightarrow> Inl e
      | Inr v \<Rightarrow> (case spelled_word b cs of Inl e \<Rightarrow> Inl e | Inr w \<Rightarrow> Inr (v @ w)))"

text \<open>The invariant of a grid: all rows have the same length, and no cell symbol is empty.\<close>

definition rectangular :: "board \<Rightarrow> bool" where
  "rectangular b = (\<forall>row \<in> set b. length row = length (hd b))"

definition symbols_nonempty :: "board \<Rightarrow> bool" where
  "symbols_nonempty b = (\<forall>row \<in> set b. \<forall>v \<in> set row. v \<noteq> [])"

text \<open>
  A path of the data model: a non-empty sequence of distinct cells of the board in which
  every two consecutive cells are neighbours.
\<close>

definition simple_path :: "board \<Rightarrow> path \<Rightarrow> bool" where
  "simple_path b p =
     (p \<noteq> [] \<and> distinct p \<and> list_all (cell_exists b) p \<and> successively are_neighbours p)"

text \<open>
  The update function that records every call of the update, with its path and word. The
  search with any other update function is the fold of that function over this record.
\<close>

definition log_event :: "(path \<times> string) list \<Rightarrow> path \<Rightarrow> string \<Rightarrow> (path \<times> string) list" where
  "log_event events p w = events @ [(p, w)]"

text \<open>Replaying a record of events with an update function.\<close>

definition replay :: "('d \<Rightarrow> path \<Rightarrow> string \<Rightarrow> 'd) \<Rightarrow> 'd \<Rightarrow> (path \<times> string) list \<Rightarrow> 'd" where
  "replay upd d events = foldl (\<lambda>d (p, w). upd d p w) d events"

text \<open>
  What the search guarantees for a recorded event: a simple path, its spelled word, the word
  in the word set, and the stop condition.
\<close>

definition sound_event :: "(int \<Rightarrow> path \<Rightarrow> string \<Rightarrow> bool) \<Rightarrow> int \<Rightarrow> board \<Rightarrow> string set \<Rightarrow> path \<times> string \<Rightarrow> bool" where
  "sound_event stop n b ws e =
     (simple_path b (fst e) \<and> spelled_word b (fst e) = Inr (snd e) \<and> snd e \<in> ws \<and> stop n (fst e) (snd e))"

section \<open>Basic facts about indexing and neighbours\<close>

lemma py_index_in_range: "0 \<le> i \<Longrightarrow> i < int (length xs) \<Longrightarrow> py_index xs i = Inr (xs ! nat i)"
  by (simp add: py_index_def)

lemma py_index_error_iff:
  "py_index xs i = Inl e \<longleftrightarrow> e = IndexError \<and> (i < - int (length xs) \<or> int (length xs) \<le> i)"
  by (auto simp: py_index_def)

lemma get_value_of_cell:
  "cell_exists b c \<Longrightarrow> get_value_by_coordinate b c = Inr (b ! nat (fst c) ! nat (snd c))"
  by (cases c) (simp add: cell_exists_def get_value_by_coordinate_def py_index_in_range)

lemma py_slice_to_append: "py_slice_to (w @ v) (int (length (w @ v)) - int (length v)) = w"
  by (simp add: py_slice_to_def)

lemma are_neighbours_unfold:
  "are_neighbours (r1, c1) (r2, c2) \<longleftrightarrow>
     (r2 = r1 - 1 \<and> c2 = c1) \<or> (r2 = r1 - 1 \<and> c2 = c1 + 1) \<or> (r2 = r1 \<and> c2 = c1 + 1) \<or>
     (r2 = r1 + 1 \<and> c2 = c1 + 1) \<or> (r2 = r1 + 1 \<and> c2 = c1) \<or> (r2 = r1 + 1 \<and> c2 = c1 - 1) \<or>
     (r2 = r1 \<and> c2 = c1 - 1) \<or> (r2 = r1 - 1 \<and> c2 = c1 - 1)"
  unfolding are_neighbours_def NEIGHBOURS_DELTA_values_def NEIGHBOURS_DELTA_def
  by (simp add: eq_commute[of _ r2] eq_commute[of _ c2])

lemma are_neighbours_delta:
  "are_neighbours c1 c2 \<longleftrightarrow>
     (\<exists>delta \<in> set NEIGHBOURS_DELTA_values. find_neighbour_coordinate c1 delta = c2)"
  by (cases c1) (force simp: are_neighbours_def find_neighbour_coordinate_def list_ex_iff)

lemma are_neighbours_iff:
  "are_neighbours a b \<longleftrightarrow> a \<noteq> b \<and> \<bar>fst b - fst a\<bar> \<le> 1 \<and> \<bar>snd b - snd a\<bar> \<le> 1"
proof (cases a; cases b)
  fix r1 c1 r2 c2 assume ab: "a = (r1, c1)" "b = (r2, c2)"
  show ?thesis unfolding ab are_neighbours_unfold fst_conv snd_conv prod.inject
    by presburger
qed

section \<open>The interactive session\<close>

text \<open>
  C5, as stated: toggling a coordinate that is in the current path but is not its last
  element leaves path and word unchanged. The code has no such test: on the board
  \<open>[["a", "b"]]\<close> with path \<open>[(0, 0), (0, 1)]\<close> and word \<open>"ab"\<close>, toggling
  \<open>(0, 0)\<close> appends the coordinate a second time.
\<close>

theorem update_word_and_path_revisit_counterexample:
  "(0, 0) \<in> set [(0, 0), (0, 1 :: int)] \<and> last [(0, 0), (0, 1 :: int)] \<noteq> (0, 0) \<and>
   update_word_and_path
     (init_model\<lparr>board := [[''a'', ''b'']], current_word := ''ab'',
        current_path := [(0, 0), (0, 1)]\<rparr>) (0, 0)
   = Inr (init_model\<lparr>board := [[''a'', ''b'']], current_word := ''aba'',
        current_path := [(0, 0), (0, 1), (0, 0)]\<rparr>)"
  by (simp add: update_word_and_path_def init_model_def get_value_by_coordinate_def py_index_def)

text \<open>
  C5, amended: for a coordinate that is in the current path but is not its last element, and
  whose cell the board holds, \<open>update_word_and_path\<close> raises nothing and appends the
  coordinate to the path and the cell's symbol to the word.
\<close>

theorem update_word_and_path_revisit_appends:
  assumes "c \<in> set (current_path m)" and "last (current_path m) \<noteq> c"
    and "get_value_by_coordinate (board m) c = Inr v"
  shows "update_word_and_path m c =
           Inr (m\<lparr>current_word := current_word m @ v, current_path := current_path m @ [c]\<rparr>)"
  using assms by (simp add: update_word_and_path_def)

theorem update_word_and_path_revisit_appends_witness:
  "update_word_and_path
     (init_model\<lparr>board := [[''a'', ''b'']], current_word := ''ab'',
        current_path := [(0, 0), (0, 1)]\<rparr>) (0, 0)
   = Inr (init_model\<lparr>board := [[''a'', ''b'']], current_word := ''aba'',
        current_path := [(0, 0), (0, 1), (0, 0)]\<rparr>)"
proof -
  let ?m = "init_model\<lparr>board := [[''a'', ''b'']], current_word := ''ab'',
        current_path := [(0, 0), (0, 1)]\<rparr>"
  have h1: "(0, 0) \<in> set (current_path ?m)" by simp
  have h2: "last (current_path ?m) \<noteq> (0, 0)" by simp
  have h3: "get_value_by_coordinate (board ?m) (0, 0) = Inr ''a''"
    by (simp add: get_value_by_coordinate_def py_index_def)
  show ?thesis using update_word_and_path_revisit_appends[OF h1 h2 h3] by simp
qed

text \<open>
  C8: for a coordinate \<open>c\<close> that is not in the current path and whose cell the board
  holds, toggling \<open>c\<close> twice succeeds both times and gives back the state before the
  first call, so current path and current word are restored. (The distinctness of the
  current path is not needed.)
\<close>

theorem update_word_and_path_twice_restores:
  assumes "c \<notin> set (current_path m)" and "get_value_by_coordinate (board m) c = Inr v"
  shows "\<exists>m1. update_word_and_path m c = Inr m1 \<and> update_word_and_path m1 c = Inr m"
proof -
  let ?m1 = "m\<lparr>current_word := current_word m @ v, current_path := current_path m @ [c]\<rparr>"
  from assms have ne: "\<not> (current_path m \<noteq> [] \<and> last (current_path m) = c)"
    by (metis last_in_set)
  with assms(2) have 1: "update_word_and_path m c = Inr ?m1"
    by (auto simp add: update_word_and_path_def)
  from assms(1) have r: "remove1 c (current_path m @ [c]) = current_path m"
    by (simp add: remove1_append)
  have "update_word_and_path ?m1 c = Inr m"
    using assms(2) r py_slice_to_append[of "current_word m" v]
    by (simp add: update_word_and_path_def)
  with 1 show ?thesis by blast
qed

theorem update_word_and_path_twice_restores_witness:
  "\<exists>m1. update_word_and_path
          (init_model\<lparr>board := [[''C'', ''A'', ''T'']], current_word := ''C'',
             current_path := [(0, 0)]\<rparr>) (0, 1) = Inr m1 \<and>
        current_word m1 = ''CA'' \<and>
        update_word_and_path m1 (0, 1) =
          Inr (init_model\<lparr>board := [[''C'', ''A'', ''T'']], current_word := ''C'',
             current_path := [(0, 0)]\<rparr>)"
proof -
  let ?m = "init_model\<lparr>board := [[''C'', ''A'', ''T'']], current_word := ''C'',
             current_path := [(0, 0)]\<rparr>"
  have h1: "(0, 1) \<notin> set (current_path ?m)" by simp
  have h2: "get_value_by_coordinate (board ?m) (0, 1) = Inr ''A''"
    by (simp add: get_value_by_coordinate_def py_index_def)
  from update_word_and_path_twice_restores[OF h1 h2]
  obtain m1 where m1: "update_word_and_path ?m (0, 1) = Inr m1" "update_word_and_path m1 (0, 1) = Inr ?m"
    by blast
  from m1(1) h2 have "current_word m1 = ''CA''"
    by (auto simp: update_word_and_path_def)
  with m1 show ?thesis by blast
qed

text \<open>
  C6, as stated, has \<open>get_buttons_to_enable\<close> return all coordinates of the grid when
  the current path is empty. The code reads the last element of the path first, which
  raises IndexError on the empty path.
\<close>

theorem get_buttons_to_enable_empty_path_counterexample:
  "get_buttons_to_enable
     (init_model\<lparr>board := [[''C'', ''A'', ''T''], [''X'', ''X'', ''X''], [''X'', ''X'', ''X'']]\<rparr>)
   = Inl IndexError"
  by (simp add: get_buttons_to_enable_def init_model_def)

text \<open>
  C6, amended: for a non-empty current path, \<open>get_buttons_to_enable\<close> returns exactly
  the last cell of the path and the neighbours of that cell that are within the boundaries
  and not in the path; for the empty path it raises IndexError, and the board button
  callback of the controller, which calls it, enables every board button instead when the
  path has become empty.
\<close>

theorem get_buttons_to_enable_cells:
  "(current_path m \<noteq> [] \<longrightarrow>
      (\<exists>bs. get_buttons_to_enable m = Inr bs \<and>
            set bs = insert (last (current_path m))
                       {c. are_neighbours (last (current_path m)) c \<and>
                           is_coordinate_in_boundaries m c \<and> c \<notin> set (current_path m)})) \<and>
   (current_path m = [] \<longrightarrow> get_buttons_to_enable m = Inl IndexError) \<and>
   (\<forall>c m'. update_word_and_path m c = Inr m' \<longrightarrow> current_path m' = [] \<longrightarrow>
      board_button_callback m c = Inr (m', Set_all_board_buttons_normal))"
proof (intro conjI impI allI)
  assume ne: "current_path m \<noteq> []"
  obtain br bc where l: "last (current_path m) = (br, bc)" by (cases "last (current_path m)")
  have "(\<lambda>(delta_row, delta_col). (br + delta_row, bc + delta_col))
        = find_neighbour_coordinate (br, bc)"
    by (auto simp: find_neighbour_coordinate_def fun_eq_iff)
  then have "get_buttons_to_enable m =
      Inr ((br, bc) # filter (\<lambda>n. is_coordinate_in_boundaries m n \<and> n \<notin> set (current_path m))
             (map (find_neighbour_coordinate (br, bc)) NEIGHBOURS_DELTA_values))"
    using ne l by (simp add: get_buttons_to_enable_def)
  moreover have "set ((br, bc) # filter (\<lambda>n. is_coordinate_in_boundaries m n \<and> n \<notin> set (current_path m))
             (map (find_neighbour_coordinate (br, bc)) NEIGHBOURS_DELTA_values))
       = insert (br, bc) {c. are_neighbours (br, bc) c \<and>
                           is_coordinate_in_boundaries m c \<and> c \<notin> set (current_path m)}"
    by (auto simp: are_neighbours_delta intro: rev_image_eqI)
  ultimately show "\<exists>bs. get_buttons_to_enable m = Inr bs \<and>
            set bs = insert (last (current_path m))
                       {c. are_neighbours (last (current_path m)) c \<and>
                           is_coordinate_in_boundaries m c \<and> c \<notin> set (current_path m)}"
    unfolding l by blast
next
  assume "current_path m = []"
  then show "get_buttons_to_enable m = Inl IndexError" by (simp add: get_buttons_to_enable_def)
next
  fix c m' assume "update_word_and_path m c = Inr m'" "current_path m' = []"
  then show "board_button_callback m c = Inr (m', Set_all_board_buttons_normal)"
    by (simp add: board_button_callback_def)
qed

theorem get_buttons_to_enable_cells_witness:
  "get_buttons_to_enable
     (init_model\<lparr>board := [[''C'', ''A'', ''T''], [''X'', ''X'', ''X''], [''X'', ''X'', ''X'']],
        current_word := ''CA'', current_path := [(0, 0), (0, 1)]\<rparr>)
     = Inr [(0, 1), (0, 2), (1, 2), (1, 1), (1, 0)] \<and>
   {c. are_neighbours (0, 1) c \<and>
       is_coordinate_in_boundaries
         (init_model\<lparr>board := [[''C'', ''A'', ''T''], [''X'', ''X'', ''X''], [''X'', ''X'', ''X'']],
            current_word := ''CA'', current_path := [(0, 0), (0, 1)]\<rparr>) c \<and>
       c \<notin> {(0, 0), (0, 1)}} \<subseteq> {(0, 2), (1, 2), (1, 1), (1, 0)} \<and>
   board_button_callback
     (init_model\<lparr>board := [[''C'', ''A'', ''T''], [''X'', ''X'', ''X''], [''X'', ''X'', ''X'']],
        current_word := ''C'', current_path := [(0, 0)]\<rparr>) (0, 0)
     = Inr (init_model\<lparr>board := [[''C'', ''A'', ''T''], [''X'', ''X'', ''X''], [''X'', ''X'', ''X'']],
              current_word := '''', current_path := []\<rparr>, Set_all_board_buttons_normal)"
proof -
  let ?b = "[[''C'', ''A'', ''T''], [''X'', ''X'', ''X''], [''X'', ''X'', ''X'']]"
  let ?mm = "init_model\<lparr>board := ?b, current_word := ''CA'', current_path := [(0, 0), (0, 1)]\<rparr>"
  let ?ma = "init_model\<lparr>board := ?b, current_word := ''C'', current_path := [(0, 0)]\<rparr>"
  let ?mz = "init_model\<lparr>board := ?b, current_word := '''', current_path := []\<rparr>"
  have ev: "get_buttons_to_enable ?mm = Inr [(0, 1), (0, 2), (1, 2), (1, 1), (1, 0)]"
    by code_simp
  have ne: "current_path ?mm \<noteq> []" by simp
  have up: "update_word_and_path ?ma (0, 0) = Inr ?mz"
    by (simp add: update_word_and_path_def get_value_by_coordinate_def py_index_def
        py_slice_to_def init_model_def)
  have e0: "current_path ?mz = []" by simp
  note gb = get_buttons_to_enable_cells
  from gb[of ?mm] ne obtain bs where bs: "get_buttons_to_enable ?mm = Inr bs"
    "set bs = insert (last (current_path ?mm))
          {c. are_neighbours (last (current_path ?mm)) c \<and>
              is_coordinate_in_boundaries ?mm c \<and> c \<notin> set (current_path ?mm)}"
    by blast
  from bs(1) ev have "bs = [(0, 1), (0, 2), (1, 2), (1, 1), (1, 0)]" by simp
  with bs(2)
  have "set [(0, 1), (0, 2), (1, 2), (1, 1), (1, 0)] = insert (last (current_path ?mm))
          {c. are_neighbours (last (current_path ?mm)) c \<and>
              is_coordinate_in_boundaries ?mm c \<and> c \<notin> set (current_path ?mm)}"
    by simp
  then have "{c. are_neighbours (0, 1) c \<and> is_coordinate_in_boundaries ?mm c \<and>
       c \<notin> {(0, 0), (0, 1)}} \<subseteq> {(0, 1), (0, 2), (1, 2), (1, 1), (1, 0)}"
    by (simp add: subset_insertI)
  then have sub: "{c. are_neighbours (0, 1) c \<and> is_coordinate_in_boundaries ?mm c \<and>
       c \<notin> {(0, 0), (0, 1)}} \<subseteq> {(0, 2), (1, 2), (1, 1), (1, 0)}"
    by blast
  from gb[of ?ma] up e0
  have cb: "board_button_callback ?ma (0, 0) = Inr (?mz, Set_all_board_buttons_normal)"
    by blast
  from ev sub cb show ?thesis by blast
qed

text \<open>
  C7: \<open>check_word\<close> answers "is not a word" when the current word is not in the words
  collection, and otherwise "You already found" when it is among the words found, leaving
  the state (score and words found) unchanged in both cases; otherwise it adds the word to
  the words found, adds the square of the length of the current path to the score, and
  answers "You found" for a word shorter than 6 characters and "You found ... Nice work!"
  for a longer one. The path is shorter than \<open>2 ^ 26\<close> cells, where the floating point
  square of the code is exact.
\<close>

theorem check_word_outcomes:
  assumes "length (current_path m) < 2 ^ 26"
  shows "(current_word m \<notin> words_collection m \<longrightarrow>
            check_word m = (msg_not_a_word (current_word m), m)) \<and>
         (current_word m \<in> words_collection m \<longrightarrow> current_word m \<in> words_found m \<longrightarrow>
            check_word m = (msg_already_found (current_word m), m)) \<and>
         (current_word m \<in> words_collection m \<longrightarrow> current_word m \<notin> words_found m \<longrightarrow>
            check_word m =
              (if length (current_word m) < 6 then msg_found (current_word m)
               else msg_found_nice_work (current_word m),
               m\<lparr>words_found := insert (current_word m) (words_found m),
                  score := score m + (int (length (current_path m)))\<^sup>2\<rparr>))"
  by (simp add: check_word_def increase_score_def Let_def)

theorem check_word_outcomes_witness:
  "check_word (init_model\<lparr>board := [[''C'', ''A'', ''T'']], words_collection := {''CAT'', ''AT'', ''CA''},
       current_word := ''CAT'', current_path := [(0, 0), (0, 1), (0, 2)]\<rparr>)
   = (msg_found ''CAT'',
      init_model\<lparr>board := [[''C'', ''A'', ''T'']], words_collection := {''CAT'', ''AT'', ''CA''},
        words_found := {''CAT''}, current_word := ''CAT'',
        current_path := [(0, 0), (0, 1), (0, 2)], score := 9\<rparr>) \<and>
   check_word (init_model\<lparr>words_collection := {''CAT''}, current_word := ''CA'',
       current_path := [(0, 0), (0, 1)]\<rparr>)
   = (msg_not_a_word ''CA'',
      init_model\<lparr>words_collection := {''CAT''}, current_word := ''CA'',
       current_path := [(0, 0), (0, 1)]\<rparr>) \<and>
   check_word (init_model\<lparr>words_collection := {''CAT''}, words_found := {''CAT''},
       current_word := ''CAT'', current_path := [(0, 0), (0, 1), (0, 2)], score := 9\<rparr>)
   = (msg_already_found ''CAT'',
      init_model\<lparr>words_collection := {''CAT''}, words_found := {''CAT''},
       current_word := ''CAT'', current_path := [(0, 0), (0, 1), (0, 2)], score := 9\<rparr>)"
proof -
  let ?ma = "init_model\<lparr>board := [[''C'', ''A'', ''T'']], words_collection := {''CAT'', ''AT'', ''CA''},
       current_word := ''CAT'', current_path := [(0, 0), (0, 1), (0, 2)]\<rparr>"
  let ?mb = "init_model\<lparr>words_collection := {''CAT''}, current_word := ''CA'',
       current_path := [(0, 0), (0, 1)]\<rparr>"
  let ?mc = "init_model\<lparr>words_collection := {''CAT''}, words_found := {''CAT''},
       current_word := ''CAT'', current_path := [(0, 0), (0, 1), (0, 2)], score := 9\<rparr>"
  have h1: "length (current_path ?ma) < 2 ^ 26" by simp
  have h2: "length (current_path ?mb) < 2 ^ 26" by simp
  have h3: "length (current_path ?mc) < 2 ^ 26" by simp
  show ?thesis
    using check_word_outcomes[OF h1] check_word_outcomes[OF h2] check_word_outcomes[OF h3]
    by (simp add: init_model_def)
qed

text \<open>
  C9, as stated, has every coordinate with a negative row or column raise an error. Python
  counts a negative index from the end of the list: on a board of two rows and two columns
  the coordinate \<open>(-1, -1)\<close> yields the value of the last cell.
\<close>

theorem get_value_by_coordinate_negative_counterexample:
  "get_value_by_coordinate [[''a'', ''b''], [''c'', ''d'']] (-1, -1) = Inr ''d''"
  by (simp add: get_value_by_coordinate_def py_index_def)

text \<open>
  C9, amended: \<open>__get_value_by_coordinate\<close> raises IndexError exactly when the row is
  below \<open>-len(board)\<close> or at least \<open>len(board)\<close>, or the column is below minus the
  length of the addressed row or at least that length; \<open>update_word_and_path\<close> raises
  IndexError for exactly the same coordinates.
\<close>

theorem get_value_by_coordinate_raises_iff:
  "(get_value_by_coordinate b (row, col) = Inl IndexError \<longleftrightarrow>
      row < - int (length b) \<or> int (length b) \<le> row \<or>
      col < - int (length (b ! nat (if row < 0 then int (length b) + row else row))) \<or>
      int (length (b ! nat (if row < 0 then int (length b) + row else row))) \<le> col) \<and>
   (\<forall>m. board m = b \<longrightarrow>
      (update_word_and_path m (row, col) = Inl IndexError \<longleftrightarrow>
         get_value_by_coordinate b (row, col) = Inl IndexError))"
proof
  show "get_value_by_coordinate b (row, col) = Inl IndexError \<longleftrightarrow>
      row < - int (length b) \<or> int (length b) \<le> row \<or>
      col < - int (length (b ! nat (if row < 0 then int (length b) + row else row))) \<or>
      int (length (b ! nat (if row < 0 then int (length b) + row else row))) \<le> col"
    by (auto simp: get_value_by_coordinate_def py_index_error_iff split: sum.splits)
       (auto simp: py_index_def split: if_splits)
next
  show "\<forall>m. board m = b \<longrightarrow>
      (update_word_and_path m (row, col) = Inl IndexError \<longleftrightarrow>
         get_value_by_coordinate b (row, col) = Inl IndexError)"
    by (auto simp: update_word_and_path_def Let_def split: sum.splits)
qed

theorem get_value_by_coordinate_raises_iff_witness:
  "get_value_by_coordinate [[''a'', ''b''], [''c'', ''d'']] (2, 0) = Inl IndexError \<and>
   get_value_by_coordinate [[''a'', ''b''], [''c'', ''d'']] (0, 2) = Inl IndexError \<and>
   get_value_by_coordinate [[''a'', ''b''], [''c'', ''d'']] (-3, 0) = Inl IndexError \<and>
   get_value_by_coordinate [[''a'', ''b''], [''c'', ''d'']] (-1, -1) \<noteq> Inl IndexError \<and>
   update_word_and_path (init_model\<lparr>board := [[''a'', ''b''], [''c'', ''d'']]\<rparr>) (2, 0) = Inl IndexError"
proof -
  let ?b = "[[''a'', ''b''], [''c'', ''d'']]"
  note t = get_value_by_coordinate_raises_iff
  have bm: "board (init_model\<lparr>board := ?b\<rparr>) = ?b" by simp
  have a: "get_value_by_coordinate ?b (2, 0) = Inl IndexError" using t[of ?b 2 0] by simp
  have b: "get_value_by_coordinate ?b (0, 2) = Inl IndexError" using t[of ?b 0 2] by simp
  have c: "get_value_by_coordinate ?b (-3, 0) = Inl IndexError" using t[of ?b "-3" 0] by simp
  have d: "get_value_by_coordinate ?b (-1, -1) \<noteq> Inl IndexError" using t[of ?b "-1" "-1"] by simp
  have e: "update_word_and_path (init_model\<lparr>board := ?b\<rparr>) (2, 0) = Inl IndexError"
    using t[of ?b 2 0] a bm by blast
  from a b c d e show ?thesis by blast
qed

section \<open>Checking a given path\<close>

lemma is_valid_path_loop_spelled:
  "path \<noteq> [] \<Longrightarrow> successively are_neighbours path \<Longrightarrow> spelled_word b path = Inr w \<Longrightarrow>
   \<exists>u v. is_valid_path_loop b path acc = Inr (Some (acc @ u)) \<and>
         get_value_by_coordinate b (last path) = Inr v \<and> w = u @ v"
proof (induction b path acc arbitrary: w rule: is_valid_path_loop.induct)
  case (1 board c1 c2 rest word)
  from "1.prems" obtain v1 w1 where v1: "get_value_by_coordinate board c1 = Inr v1"
    and w1: "spelled_word board (c2 # rest) = Inr w1" and w: "w = v1 @ w1"
    by (auto split: sum.splits)
  from "1.prems" have nb: "are_neighbours c1 c2" and succ: "successively are_neighbours (c2 # rest)"
    by simp_all
  from "1.IH"[OF _ v1 _ succ w1] nb
  obtain u v where "is_valid_path_loop board (c2 # rest) (word @ v1) = Inr (Some ((word @ v1) @ u))"
    "get_value_by_coordinate board (last (c2 # rest)) = Inr v" "w1 = u @ v"
    by auto
  with nb v1 w show ?case by auto
next
  case (2 board c word)
  then show ?case by (auto split: sum.splits)
next
  case (3 board word)
  then show ?case by simp
qed

text \<open>
  C10: \<open>is_valid_path\<close> returns the spelled word of every non-empty path whose
  consecutive coordinates are neighbours and whose spelled word is among the words. The
  coordinates need not be distinct: the witness is a path that visits a cell twice.
\<close>

theorem is_valid_path_accepts_adjacent_word:
  assumes "path \<noteq> []" and "successively are_neighbours path"
    and "spelled_word b path = Inr w" and "w \<in> set words"
  shows "is_valid_path b path words = Inr (Some w)"
proof -
  from is_valid_path_loop_spelled[OF assms(1-3), of "[]"]
  obtain u v where "is_valid_path_loop b path [] = Inr (Some u)"
    "get_value_by_coordinate b (last path) = Inr v" "w = u @ v"
    by auto
  with assms(1,4) show ?thesis by (simp add: is_valid_path_def)
qed

theorem is_valid_path_accepts_adjacent_word_witness:
  "\<not> distinct [(0, 0), (0, 1), (0, 0 :: int)] \<and>
   is_valid_path [[''a'', ''b'']] [(0, 0), (0, 1), (0, 0)] [''aba''] = Inr (Some ''aba'')"
proof -
  have h1: "[(0, 0), (0, 1), (0, 0 :: int)] \<noteq> []" by simp
  have h2: "successively are_neighbours [(0, 0), (0, 1), (0, 0 :: int)]"
    by (simp add: are_neighbours_iff)
  have h3: "spelled_word [[''a'', ''b'']] [(0, 0), (0, 1), (0, 0)] = Inr ''aba''"
    by (simp add: get_value_by_coordinate_def py_index_def)
  have h4: "''aba'' \<in> set [''aba'']" by simp
  show ?thesis using is_valid_path_accepts_adjacent_word[OF h1 h2 h3 h4] by simp
qed

section \<open>The search: every update function replays the record of events\<close>

lemma backtracking_simulation:
  fixes R :: "'a \<Rightarrow> 'b \<Rightarrow> bool"
  shows "(\<And>d1 d2 p w. R d1 d2 \<Longrightarrow> R (upd1 d1 p w) (upd2 d2 p w)) \<Longrightarrow> R d1 d2 \<Longrightarrow>
         rel_sum (=) R (backtracking_action stop upd1 n b ws d1 path word)
                       (backtracking_action stop upd2 n b ws d2 path word)"
    and "(\<And>d1 d2 p w. R d1 d2 \<Longrightarrow> R (upd1 d1 p w) (upd2 d2 p w)) \<Longrightarrow> R d1 d2 \<Longrightarrow>
         rel_sum (=) R (try_neighbours stop upd1 n b ws d1 path word deltas)
                       (try_neighbours stop upd2 n b ws d2 path word deltas)"
proof (induction stop upd1 n b ws d1 path word and stop upd1 n b ws d1 path word deltas
    arbitrary: d2 and d2 rule: backtracking_action_try_neighbours.induct)
  case (1 stop upd1 n b ws d1 path word)
  show ?case
  proof (cases "stop n path word")
    case True
    with "1.prems" show ?thesis by simp
  next
    case False
    with "1.IH"[OF False "1.prems"] show ?thesis by simp
  qed
next
  case (2 stop upd1 n b ws d1 path word)
  then show ?case by simp
next
  case (3 stop upd1 n b ws d1 path word delta deltas)
  let ?nb = "find_neighbour_coordinate (last path) delta"
  note step = "3.prems"(1) and R = "3.prems"(2)
  show ?case
  proof (cases "path = [] \<or> \<not> is_coordinate_in_board b ?nb \<or> ?nb \<in> set path")
    case True
    then show ?thesis
      using "3.IH"(1)[OF _ _ step R] "3.IH"(2)[OF _ _ _ step R] by auto
  next
    case ok: False
    show ?thesis
    proof (cases "get_value_by_coordinate b ?nb")
      case (Inl e)
      with ok show ?thesis by simp
    next
      case (Inr v)
      show ?thesis
      proof (cases "filter_words_set_by_prefix ws (word @ v) = {}")
        case True
        with ok Inr "3.IH"(3)[OF _ _ _ Inr True step R] show ?thesis by simp
      next
        case False
        from ok have a: "path \<noteq> []" "\<not> \<not> is_coordinate_in_board b ?nb" "?nb \<notin> set path"
          by auto
        note rec = "3.IH"(4)[OF a Inr False step R]
        show ?thesis
        proof (cases "backtracking_action stop upd1 n b (filter_words_set_by_prefix ws (word @ v))
                        d1 (path @ [?nb]) (word @ v)")
          case l: (Inl e)
          with rec ok Inr False show ?thesis by (auto elim: rel_sum.cases)
        next
          case r: (Inr d1')
          with rec obtain d2' where
            r2: "backtracking_action stop upd2 n b (filter_words_set_by_prefix ws (word @ v))
                        d2 (path @ [?nb]) (word @ v) = Inr d2'" and R': "R d1' d2'"
            by (auto elim: rel_sum.cases)
          from "3.IH"(5)[OF a Inr False r step R'] ok Inr False r r2
          show ?thesis by simp
        qed
      qed
    qed
  qed
qed

lemma backtracking_from_simulation:
  fixes R :: "'a \<Rightarrow> 'b \<Rightarrow> bool"
  assumes step: "\<And>d1 d2 p w. R d1 d2 \<Longrightarrow> R (upd1 d1 p w) (upd2 d2 p w)"
  shows "R d1 d2 \<Longrightarrow>
         rel_sum (=) R (backtracking_from stop upd1 n b ws d1 cs)
                       (backtracking_from stop upd2 n b ws d2 cs)"
proof (induction cs arbitrary: d1 d2)
  case Nil
  then show ?case by simp
next
  case (Cons c cs)
  show ?case
  proof (cases "get_value_by_coordinate b c")
    case (Inl e)
    then show ?thesis by simp
  next
    case (Inr v)
    show ?thesis
    proof (cases "filter_words_set_by_prefix ws v = {}")
      case True
      with Inr Cons.IH[OF Cons.prems] show ?thesis by simp
    next
      case False
      from backtracking_simulation(1)[of R upd1 upd2, OF step Cons.prems]
      have rec: "rel_sum (=) R (backtracking_action stop upd1 n b ws d1 [c] v)
                   (backtracking_action stop upd2 n b ws d2 [c] v)" .
      show ?thesis
      proof (cases "backtracking_action stop upd1 n b ws d1 [c] v")
        case l: (Inl e)
        with rec Inr False show ?thesis by (auto elim: rel_sum.cases)
      next
        case r: (Inr d1')
        with rec obtain d2' where r2: "backtracking_action stop upd2 n b ws d2 [c] v = Inr d2'"
          and R': "R d1' d2'"
          by (auto elim: rel_sum.cases)
        from Cons.IH[OF R'] Inr False r r2 show ?thesis by simp
      qed
    qed
  qed
qed

lemma replay_snoc: "replay upd d (events @ [(p, w)]) = upd (replay upd d events) p w"
  by (simp add: replay_def)

lemma backtracking_action_replay:
  "backtracking_action stop upd n b ws d path word =
     map_sum id (replay upd d) (backtracking_action stop log_event n b ws [] path word)"
proof -
  have "rel_sum (=) (\<lambda>events d'. d' = replay upd d events)
          (backtracking_action stop log_event n b ws [] path word)
          (backtracking_action stop upd n b ws d path word)"
    by (rule backtracking_simulation(1)) (simp_all add: log_event_def replay_snoc, simp add: replay_def)
  then show ?thesis by (auto elim!: rel_sum.cases)
qed

lemma backtracking_from_replay:
  "backtracking_from stop upd n b ws d cs =
     map_sum id (replay upd d) (backtracking_from stop log_event n b ws [] cs)"
proof -
  have "rel_sum (=) (\<lambda>events d'. d' = replay upd d events)
          (backtracking_from stop log_event n b ws [] cs)
          (backtracking_from stop upd n b ws d cs)"
    by (rule backtracking_from_simulation) (simp_all add: log_event_def replay_snoc, simp add: replay_def)
  then show ?thesis by (auto elim!: rel_sum.cases)
qed

lemma backtracking_start_replay:
  "backtracking_start stop upd n b words d =
     map_sum id (replay upd d) (backtracking_start stop log_event n b words [])"
  unfolding backtracking_start_def by (rule backtracking_from_replay)

lemma replay_log_event: "replay log_event events new = events @ new"
  by (induction new rule: rev_induct) (simp_all add: replay_def log_event_def)

lemma replay_append_path: "replay (\<lambda>lst_paths path word. lst_paths @ [path]) ps events = ps @ map fst events"
  by (induction events rule: rev_induct) (simp_all add: replay_def split_beta)

lemma spelled_word_append:
  "spelled_word b (p @ q) =
     (case spelled_word b p of
        Inl e \<Rightarrow> Inl e
      | Inr w1 \<Rightarrow> (case spelled_word b q of Inl e \<Rightarrow> Inl e | Inr w2 \<Rightarrow> Inr (w1 @ w2)))"
  by (induction p) (auto split: sum.splits)

lemma spelled_word_snoc:
  "spelled_word b p = Inr w \<Longrightarrow> get_value_by_coordinate b c = Inr v \<Longrightarrow>
   spelled_word b (p @ [c]) = Inr (w @ v)"
  by (simp add: spelled_word_append)

lemma cell_exists_of_value:
  "0 \<le> fst c \<Longrightarrow> 0 \<le> snd c \<Longrightarrow> get_value_by_coordinate b c = Inr v \<Longrightarrow> cell_exists b c"
  by (cases c) (auto simp: cell_exists_def get_value_by_coordinate_def py_index_def
      split: sum.splits if_splits)

lemma cell_exists_start_coordinates: "c \<in> set (start_coordinates b) \<Longrightarrow> cell_exists b c"
  by (auto simp: start_coordinates_def cell_exists_def)

lemma set_start_coordinates:
  "set (start_coordinates b) = {(int i, int j) | i j. i < length b \<and> j < length (b ! i)}"
  by (auto simp: start_coordinates_def)

lemma start_coordinates_cell_exists: "cell_exists b c \<Longrightarrow> c \<in> set (start_coordinates b)"
proof -
  assume ce: "cell_exists b c"
  obtain r k where c: "c = (r, k)" by (cases c)
  from ce c have "nat r < length b" "nat k < length (b ! nat r)" "c = (int (nat r), int (nat k))"
    by (auto simp: cell_exists_def)
  then show ?thesis unfolding set_start_coordinates by blast
qed

lemma simple_path_snoc:
  assumes "simple_path b p" and "c \<notin> set p" and "cell_exists b c"
    and "are_neighbours (last p) c"
  shows "simple_path b (p @ [c])"
  using assms by (auto simp: simple_path_def successively_append_iff)

lemma simple_path_single: "cell_exists b c \<Longrightarrow> simple_path b [c]"
  by (simp add: simple_path_def)

lemma sound_event_mono: "sound_event stop n b ws e \<Longrightarrow> ws \<subseteq> ws' \<Longrightarrow> sound_event stop n b ws' e"
  by (auto simp: sound_event_def)

lemma backtracking_events_sound:
  shows "backtracking_action stop upd n b ws events path word = Inr res \<Longrightarrow> upd = log_event \<Longrightarrow>
         simple_path b path \<Longrightarrow> spelled_word b path = Inr word \<Longrightarrow>
         \<forall>e \<in> set res. e \<in> set events \<or> sound_event stop n b ws e"
    and "try_neighbours stop upd n b ws events path word deltas = Inr res \<Longrightarrow> upd = log_event \<Longrightarrow>
         simple_path b path \<Longrightarrow> spelled_word b path = Inr word \<Longrightarrow>
         set deltas \<subseteq> set NEIGHBOURS_DELTA_values \<Longrightarrow>
         \<forall>e \<in> set res. e \<in> set events \<or> sound_event stop n b ws e"
proof (induction stop upd n b ws events path word and stop upd n b ws events path word deltas
    arbitrary: res and res rule: backtracking_action_try_neighbours.induct)
  case (1 stop upd n b ws events path word)
  show ?case
  proof (cases "stop n path word")
    case True
    with "1.prems" show ?thesis
      by (auto simp: log_event_def sound_event_def split: if_splits)
  next
    case False
    with "1.prems" have "try_neighbours stop upd n b ws events path word NEIGHBOURS_DELTA_values = Inr res"
      by simp
    from "1.IH"[OF False this "1.prems"(2-4)] show ?thesis by simp
  qed
next
  case (2 stop upd n b ws events path word)
  then show ?case by simp
next
  case (3 stop upd n b ws events path word delta deltas)
  let ?nb = "find_neighbour_coordinate (last path) delta"
  note run = "3.prems"(1) and lg = "3.prems"(2) and sp = "3.prems"(3) and sw = "3.prems"(4)
  from "3.prems"(5) have dl: "delta \<in> set NEIGHBOURS_DELTA_values"
    and ds: "set deltas \<subseteq> set NEIGHBOURS_DELTA_values" by auto
  from sp have ne: "path \<noteq> []" by (simp add: simple_path_def)
  show ?case
  proof (cases "\<not> is_coordinate_in_board b ?nb \<or> ?nb \<in> set path")
    case True
    with run ne have "try_neighbours stop upd n b ws events path word deltas = Inr res"
      by (auto split: if_splits)
    with True "3.IH"(1)[OF ne _ _ lg sp sw ds] "3.IH"(2)[OF ne _ _ _ lg sp sw ds]
    show ?thesis by blast
  next
    case ok: False
    then have a: "\<not> \<not> is_coordinate_in_board b ?nb" "?nb \<notin> set path" by auto
    from run ne ok obtain v where v: "get_value_by_coordinate b ?nb = Inr v"
      by (cases "get_value_by_coordinate b ?nb") auto
    show ?thesis
    proof (cases "filter_words_set_by_prefix ws (word @ v) = {}")
      case True
      with run ne ok v have "try_neighbours stop upd n b ws events path word deltas = Inr res"
        by simp
      from "3.IH"(3)[OF ne a v True this lg sp sw ds] show ?thesis .
    next
      case False
      from run ne ok v False obtain mid where
        mid: "backtracking_action stop upd n b (filter_words_set_by_prefix ws (word @ v)) events
                (path @ [?nb]) (word @ v) = Inr mid"
        and rest: "try_neighbours stop upd n b ws mid path word deltas = Inr res"
        by (cases "backtracking_action stop upd n b (filter_words_set_by_prefix ws (word @ v)) events
                (path @ [?nb]) (word @ v)") auto
      from a(1) have "0 \<le> fst ?nb" "0 \<le> snd ?nb" by (auto simp: is_coordinate_in_board_def)
      with v have ce: "cell_exists b ?nb" by (blast intro: cell_exists_of_value)
      from dl have "are_neighbours (last path) ?nb" unfolding are_neighbours_delta by blast
      with sp a(2) ce have sp': "simple_path b (path @ [?nb])" by (intro simple_path_snoc)
      from sw v have sw': "spelled_word b (path @ [?nb]) = Inr (word @ v)" by (rule spelled_word_snoc)
      have sub: "filter_words_set_by_prefix ws (word @ v) \<subseteq> ws"
        by (auto simp: filter_words_set_by_prefix_def)
      from "3.IH"(4)[OF ne a v False mid lg sp' sw']
      have 1: "\<forall>e\<in>set mid. e \<in> set events \<or> sound_event stop n b ws e"
        using sub by (blast intro: sound_event_mono)
      from "3.IH"(5)[OF ne a v False mid rest lg sp sw ds]
      have 2: "\<forall>e\<in>set res. e \<in> set mid \<or> sound_event stop n b ws e" .
      from 1 2 show ?thesis by blast
    qed
  qed
qed

lemma backtracking_from_events_sound:
  "backtracking_from stop log_event n b ws events cs = Inr res \<Longrightarrow>
   \<forall>c \<in> set cs. cell_exists b c \<Longrightarrow>
   \<forall>e \<in> set res. e \<in> set events \<or> sound_event stop n b ws e"
proof (induction cs arbitrary: events)
  case Nil
  then show ?case by simp
next
  case (Cons c cs)
  from Cons.prems(1) obtain v where v: "get_value_by_coordinate b c = Inr v"
    by (cases "get_value_by_coordinate b c") auto
  from Cons.prems(2) have cs: "\<forall>c \<in> set cs. cell_exists b c" and ce: "cell_exists b c" by auto
  show ?case
  proof (cases "filter_words_set_by_prefix ws v = {}")
    case True
    with Cons.prems(1) v have "backtracking_from stop log_event n b ws events cs = Inr res" by simp
    from Cons.IH[OF this cs] show ?thesis .
  next
    case False
    with Cons.prems(1) v obtain mid where
      mid: "backtracking_action stop log_event n b ws events [c] v = Inr mid"
      and rest: "backtracking_from stop log_event n b ws mid cs = Inr res"
      by (cases "backtracking_action stop log_event n b ws events [c] v") auto
    have sw: "spelled_word b [c] = Inr v" using v by simp
    from backtracking_events_sound(1)[OF mid refl simple_path_single[OF ce] sw]
    have 1: "\<forall>e\<in>set mid. e \<in> set events \<or> sound_event stop n b ws e" .
    from Cons.IH[OF rest cs] have 2: "\<forall>e\<in>set res. e \<in> set mid \<or> sound_event stop n b ws e" .
    from 1 2 show ?thesis by blast
  qed
qed

lemma backtracking_start_events_sound:
  assumes "backtracking_start stop log_event n b words [] = Inr res" and "e \<in> set res"
  shows "sound_event stop n b (set words) e"
proof -
  have "\<forall>c \<in> set (start_coordinates b). cell_exists b c"
    by (simp add: cell_exists_start_coordinates)
  from backtracking_from_events_sound[OF assms(1)[unfolded backtracking_start_def] this] assms(2)
  show ?thesis by simp
qed

text \<open>The record of events only grows.\<close>

lemma backtracking_action_log_mono:
  assumes "backtracking_action stop log_event n b ws events path word = Inr res"
  shows "set events \<subseteq> set res"
proof -
  have "rel_sum (=) (\<lambda>x y. y = events @ x)
          (backtracking_action stop log_event n b ws [] path word)
          (backtracking_action stop log_event n b ws events path word)"
    by (rule backtracking_simulation(1)) (simp_all add: log_event_def)
  with assms show ?thesis by (auto elim!: rel_sum.cases)
qed

lemma try_neighbours_log_mono:
  assumes "try_neighbours stop log_event n b ws events path word deltas = Inr res"
  shows "set events \<subseteq> set res"
proof -
  have "rel_sum (=) (\<lambda>x y. y = events @ x)
          (try_neighbours stop log_event n b ws [] path word deltas)
          (try_neighbours stop log_event n b ws events path word deltas)"
    by (rule backtracking_simulation(2)) (simp_all add: log_event_def)
  with assms show ?thesis by (auto elim!: rel_sum.cases)
qed

lemma backtracking_from_log_mono:
  assumes "backtracking_from stop log_event n b ws events cs = Inr res"
  shows "set events \<subseteq> set res"
proof -
  have "rel_sum (=) (\<lambda>x y. y = events @ x)
          (backtracking_from stop log_event n b ws [] cs)
          (backtracking_from stop log_event n b ws events cs)"
    by (rule backtracking_from_simulation) (simp_all add: log_event_def)
  with assms show ?thesis by (auto elim!: rel_sum.cases)
qed

text \<open>On a rectangular board the search raises nothing.\<close>

lemma cell_exists_in_board: "rectangular b \<Longrightarrow> cell_exists b c \<Longrightarrow> is_coordinate_in_board b c"
proof -
  assume r: "rectangular b" and ce: "cell_exists b c"
  from ce have "nat (fst c) < length b" by (auto simp: cell_exists_def)
  then have "b ! nat (fst c) \<in> set b" by simp
  with r have "length (b ! nat (fst c)) = length (hd b)" by (simp add: rectangular_def)
  with ce show ?thesis by (simp add: cell_exists_def is_coordinate_in_board_def)
qed

lemma in_board_cell_exists: "rectangular b \<Longrightarrow> is_coordinate_in_board b c \<Longrightarrow> cell_exists b c"
proof -
  assume r: "rectangular b" and ib: "is_coordinate_in_board b c"
  from ib have "nat (fst c) < length b" by (auto simp: is_coordinate_in_board_def)
  then have "b ! nat (fst c) \<in> set b" by simp
  with r have "length (b ! nat (fst c)) = length (hd b)" by (simp add: rectangular_def)
  with ib show ?thesis by (simp add: cell_exists_def is_coordinate_in_board_def)
qed

lemma backtracking_no_error:
  shows "rectangular b \<Longrightarrow> path \<noteq> [] \<Longrightarrow>
         \<exists>res. backtracking_action stop upd n b ws d path word = Inr res"
    and "rectangular b \<Longrightarrow> path \<noteq> [] \<Longrightarrow>
         \<exists>res. try_neighbours stop upd n b ws d path word deltas = Inr res"
proof (induction stop upd n b ws d path word and stop upd n b ws d path word deltas
    rule: backtracking_action_try_neighbours.induct)
  case (1 stop upd n b ws d path word)
  show ?case
  proof (cases "stop n path word")
    case True
    then show ?thesis by simp
  next
    case False
    from "1.IH"[OF False "1.prems"] False show ?thesis by simp
  qed
next
  case (2 stop upd n b ws d path word)
  then show ?case by simp
next
  case (3 stop upd n b ws d path word delta deltas)
  let ?nb = "find_neighbour_coordinate (last path) delta"
  note r = "3.prems"(1) and ne = "3.prems"(2)
  show ?case
  proof (cases "\<not> is_coordinate_in_board b ?nb \<or> ?nb \<in> set path")
    case True
    with ne "3.IH"(1)[OF ne _ r ne] "3.IH"(2)[OF ne _ _ r ne] show ?thesis by auto
  next
    case ok: False
    then have a: "\<not> \<not> is_coordinate_in_board b ?nb" "?nb \<notin> set path" by auto
    from a(1) r have "cell_exists b ?nb" by (simp add: in_board_cell_exists)
    then obtain v where v: "get_value_by_coordinate b ?nb = Inr v"
      by (simp add: get_value_of_cell)
    show ?thesis
    proof (cases "filter_words_set_by_prefix ws (word @ v) = {}")
      case True
      with ne ok v "3.IH"(3)[OF ne a v True r ne] show ?thesis by simp
    next
      case False
      from "3.IH"(4)[OF ne a v False r] obtain mid where
        mid: "backtracking_action stop upd n b (filter_words_set_by_prefix ws (word @ v)) d
                (path @ [?nb]) (word @ v) = Inr mid" by auto
      from "3.IH"(5)[OF ne a v False mid r ne] ne ok v False mid show ?thesis by simp
    qed
  qed
qed

lemma backtracking_from_no_error:
  "\<forall>c \<in> set cs. cell_exists b c \<Longrightarrow> rectangular b \<Longrightarrow>
   \<exists>res. backtracking_from stop upd n b ws d cs = Inr res"
proof (induction cs arbitrary: d)
  case Nil
  then show ?case by simp
next
  case (Cons c cs)
  from Cons.prems obtain v where v: "get_value_by_coordinate b c = Inr v"
    by (simp add: get_value_of_cell)
  from Cons.prems have cs: "\<forall>c \<in> set cs. cell_exists b c" by simp
  have "\<exists>mid. backtracking_action stop upd n b ws d [c] v = Inr mid"
    by (rule backtracking_no_error(1)[OF Cons.prems(2)]) simp
  then obtain mid where mid: "backtracking_action stop upd n b ws d [c] v = Inr mid" ..
  from Cons.IH[OF cs Cons.prems(2), of d] Cons.IH[OF cs Cons.prems(2), of mid] v mid
  show ?case by simp
qed

lemma backtracking_start_no_error:
  "rectangular b \<Longrightarrow> \<exists>res. backtracking_start stop upd n b words d = Inr res"
  unfolding backtracking_start_def
  by (rule backtracking_from_no_error) (simp_all add: cell_exists_start_coordinates)

lemma cell_value_nonempty:
  assumes "symbols_nonempty b" and "cell_exists b c" and "get_value_by_coordinate b c = Inr v"
  shows "v \<noteq> []"
proof -
  from assms(2) have r: "nat (fst c) < length b" and k: "nat (snd c) < length (b ! nat (fst c))"
    by (auto simp: cell_exists_def)
  from assms(2,3) have "v = b ! nat (fst c) ! nat (snd c)" by (simp add: get_value_of_cell)
  with r k have "v \<in> set (b ! nat (fst c))" "b ! nat (fst c) \<in> set b" by simp_all
  with assms(1) show ?thesis by (auto simp: symbols_nonempty_def)
qed

lemma spelled_word_nonempty:
  assumes "symbols_nonempty b" and "list_all (cell_exists b) (c # cs)"
    and "spelled_word b (c # cs) = Inr w"
  shows "w \<noteq> []"
proof -
  from assms(3) obtain v w' where v: "get_value_by_coordinate b c = Inr v" and w: "w = v @ w'"
    by (auto split: sum.splits)
  from assms(2) have "cell_exists b c" by simp
  from cell_value_nonempty[OF assms(1) this v] w show ?thesis by simp
qed

lemma prefix_in_filter:
  "wq \<in> ws \<Longrightarrow> prefix pre wq \<Longrightarrow> wq \<in> filter_words_set_by_prefix ws pre"
  by (simp add: filter_words_set_by_prefix_def)

lemma backtracking_words_complete:
  shows "backtracking_action stop upd n b ws events path word = Inr res \<Longrightarrow> upd = log_event \<Longrightarrow>
         stop = (\<lambda>n path word. int (length word) = n) \<Longrightarrow>
         rectangular b \<Longrightarrow> symbols_nonempty b \<Longrightarrow> path \<noteq> [] \<Longrightarrow>
         spelled_word b path = Inr word \<Longrightarrow>
         simple_path b (path @ rest) \<Longrightarrow> spelled_word b (path @ rest) = Inr wq \<Longrightarrow>
         wq \<in> ws \<Longrightarrow> int (length wq) = n \<Longrightarrow> (path @ rest, wq) \<in> set res"
    and "try_neighbours stop upd n b ws events path word deltas = Inr res \<Longrightarrow> upd = log_event \<Longrightarrow>
         stop = (\<lambda>n path word. int (length word) = n) \<Longrightarrow>
         rectangular b \<Longrightarrow> symbols_nonempty b \<Longrightarrow> path \<noteq> [] \<Longrightarrow>
         spelled_word b path = Inr word \<Longrightarrow>
         simple_path b (path @ c # rest) \<Longrightarrow> spelled_word b (path @ c # rest) = Inr wq \<Longrightarrow>
         wq \<in> ws \<Longrightarrow> int (length wq) = n \<Longrightarrow>
         \<exists>delta \<in> set deltas. find_neighbour_coordinate (last path) delta = c \<Longrightarrow>
         (path @ c # rest, wq) \<in> set res"
proof (induction stop upd n b ws events path word and stop upd n b ws events path word deltas
    arbitrary: res rest and res c rest rule: backtracking_action_try_neighbours.induct)
  case (1 stop upd n b ws events path word)
  note run = "1.prems"(1) and lg = "1.prems"(2) and st = "1.prems"(3) and rc = "1.prems"(4)
    and sn = "1.prems"(5) and ne = "1.prems"(6) and sw = "1.prems"(7) and sp = "1.prems"(8)
    and sq = "1.prems"(9) and wq = "1.prems"(10) and len = "1.prems"(11)
  show ?case
  proof (cases rest)
    case Nil
    with sw sq have "word = wq" by simp
    with run lg st wq len Nil show ?thesis by (auto simp add: log_event_def)
  next
    case (Cons c rest')
    from sq sw Cons obtain w2 where w2: "spelled_word b (c # rest') = Inr w2" and eq: "wq = word @ w2"
      by (auto simp: spelled_word_append split: sum.splits)
    from sp Cons have "list_all (cell_exists b) (c # rest')" by (simp add: simple_path_def)
    from spelled_word_nonempty[OF sn this w2] have "0 < length w2" by simp
    with eq len have ns: "\<not> stop n path word" by (auto simp add: st)
    with run have run': "try_neighbours stop upd n b ws events path word NEIGHBOURS_DELTA_values = Inr res"
      by simp
    from sp Cons ne have "are_neighbours (last path) c"
      by (simp add: simple_path_def successively_append_iff)
    then have ex: "\<exists>delta \<in> set NEIGHBOURS_DELTA_values. find_neighbour_coordinate (last path) delta = c"
      by (simp add: are_neighbours_delta)
    from "1.IH"[OF ns run' lg st rc sn ne sw sp[unfolded Cons] sq[unfolded Cons] wq len ex] Cons
    show ?thesis by simp
  qed
next
  case (2 stop upd n b ws events path word)
  then show ?case by simp
next
  case (3 stop upd n b ws events path word delta deltas)
  let ?nb = "find_neighbour_coordinate (last path) delta"
  note run = "3.prems"(1) and lg = "3.prems"(2) and st = "3.prems"(3) and rc = "3.prems"(4)
    and sn = "3.prems"(5) and ne = "3.prems"(6) and sw = "3.prems"(7) and sp = "3.prems"(8)
    and sq = "3.prems"(9) and wq = "3.prems"(10) and len = "3.prems"(11) and ex = "3.prems"(12)
  from sp have cin: "is_coordinate_in_board b c" and cnot: "c \<notin> set path"
    by (auto simp: simple_path_def intro: cell_exists_in_board[OF rc])
  from sp have cce: "cell_exists b c" by (simp add: simple_path_def)
  from sq sw obtain vc w3 where vc: "get_value_by_coordinate b c = Inr vc" and eq: "wq = word @ vc @ w3"
    by (auto simp: spelled_word_append split: sum.splits)
  have later: "\<exists>delta \<in> set deltas. find_neighbour_coordinate (last path) delta = c" if "?nb \<noteq> c"
    using ex that by auto
  show ?case
  proof (cases "\<not> is_coordinate_in_board b ?nb \<or> ?nb \<in> set path")
    case True
    with cin cnot have "?nb \<noteq> c" by auto
    note lt = later[OF this]
    from True run ne have run': "try_neighbours stop upd n b ws events path word deltas = Inr res"
      by (auto split: if_splits)
    from True "3.IH"(1)[OF ne _ run' lg st rc sn ne sw sp sq wq len lt]
      "3.IH"(2)[OF ne _ _ run' lg st rc sn ne sw sp sq wq len lt]
    show ?thesis by blast
  next
    case ok: False
    then have a: "\<not> \<not> is_coordinate_in_board b ?nb" "?nb \<notin> set path" by auto
    from run ne ok obtain v where v: "get_value_by_coordinate b ?nb = Inr v"
      by (cases "get_value_by_coordinate b ?nb") auto
    show ?thesis
    proof (cases "filter_words_set_by_prefix ws (word @ v) = {}")
      case True
      have "?nb \<noteq> c"
      proof
        assume "?nb = c"
        with v vc have "v = vc" by simp
        with eq have "prefix (word @ v) wq" by simp
        from prefix_in_filter[OF wq this] True show False by simp
      qed
      note lt = later[OF this]
      from True run ne ok v have run': "try_neighbours stop upd n b ws events path word deltas = Inr res"
        by simp
      from "3.IH"(3)[OF ne a v True run' lg st rc sn ne sw sp sq wq len lt] show ?thesis .
    next
      case False
      from run ne ok v False obtain mid where
        mid: "backtracking_action stop upd n b (filter_words_set_by_prefix ws (word @ v)) events
                (path @ [?nb]) (word @ v) = Inr mid"
        and rst: "try_neighbours stop upd n b ws mid path word deltas = Inr res"
        by (cases "backtracking_action stop upd n b (filter_words_set_by_prefix ws (word @ v)) events
                (path @ [?nb]) (word @ v)") auto
      show ?thesis
      proof (cases "?nb = c")
        case True
        with v vc have vv: "v = vc" by simp
        with eq have "prefix (word @ v) wq" by simp
        from prefix_in_filter[OF wq this]
        have wq': "wq \<in> filter_words_set_by_prefix ws (word @ v)" .
        have sw': "spelled_word b (path @ [?nb]) = Inr (word @ v)"
          using sw v by (rule spelled_word_snoc)
        have sp': "simple_path b ((path @ [?nb]) @ rest)" using sp True by simp
        have sq': "spelled_word b ((path @ [?nb]) @ rest) = Inr wq" using sq True by simp
        from "3.IH"(4)[OF ne a v False mid lg st rc sn _ sw' sp' sq' wq' len]
        have "(path @ c # rest, wq) \<in> set mid" using True by simp
        with try_neighbours_log_mono[OF rst[unfolded lg]] show ?thesis by blast
      next
        case nc: False
        from "3.IH"(5)[OF ne a v False mid rst lg st rc sn ne sw sp sq wq len later[OF nc]]
        show ?thesis .
      qed
    qed
  qed
qed

lemma backtracking_from_words_complete:
  "backtracking_from (\<lambda>n path word. int (length word) = n) log_event n b ws events cs = Inr res \<Longrightarrow>
   rectangular b \<Longrightarrow> symbols_nonempty b \<Longrightarrow>
   simple_path b q \<Longrightarrow> spelled_word b q = Inr wq \<Longrightarrow> wq \<in> ws \<Longrightarrow> int (length wq) = n \<Longrightarrow>
   hd q \<in> set cs \<Longrightarrow> (q, wq) \<in> set res"
proof (induction cs arbitrary: events)
  case Nil
  then show ?case by simp
next
  case (Cons c cs)
  let ?stop = "\<lambda>n path word. int (length word) = n"
  note run = Cons.prems(1) and rc = Cons.prems(2) and sn = Cons.prems(3) and sp = Cons.prems(4)
    and sq = Cons.prems(5) and wq = Cons.prems(6) and len = Cons.prems(7)
  from run obtain v where v: "get_value_by_coordinate b c = Inr v"
    by (cases "get_value_by_coordinate b c") auto
  from sp obtain c0 rest where q: "q = c0 # rest" by (cases q) (auto simp: simple_path_def)
  from sq q obtain v0 w1 where v0: "get_value_by_coordinate b c0 = Inr v0" and eq: "wq = v0 @ w1"
    by (auto split: sum.splits)
  show ?case
  proof (cases "filter_words_set_by_prefix ws v = {}")
    case True
    have "c \<noteq> c0"
    proof
      assume "c = c0"
      with v v0 eq have "prefix v wq" by simp
      from prefix_in_filter[OF wq this] True show False by simp
    qed
    with Cons.prems(8) q have h: "hd q \<in> set cs" by simp
    from True run v have "backtracking_from ?stop log_event n b ws events cs = Inr res" by simp
    from Cons.IH[OF this rc sn sp sq wq len h] show ?thesis .
  next
    case False
    with run v obtain mid where
      mid: "backtracking_action ?stop log_event n b ws events [c] v = Inr mid"
      and rst: "backtracking_from ?stop log_event n b ws mid cs = Inr res"
      by (cases "backtracking_action ?stop log_event n b ws events [c] v") auto
    show ?thesis
    proof (cases "c = c0")
      case True
      have sw: "spelled_word b [c] = Inr v" using v by simp
      have sp': "simple_path b ([c] @ rest)" using sp q True by simp
      have sq': "spelled_word b ([c] @ rest) = Inr wq" using sq q True by simp
      from backtracking_words_complete(1)[OF mid refl refl rc sn _ sw sp' sq' wq len]
      have "(q, wq) \<in> set mid" using q True by simp
      with backtracking_from_log_mono[OF rst] show ?thesis by blast
    next
      case nc: False
      with Cons.prems(8) q have h: "hd q \<in> set cs" by simp
      from Cons.IH[OF rst rc sn sp sq wq len h] show ?thesis .
    qed
  qed
qed

lemma find_length_n_paths_events:
  "find_length_n_paths n b words =
     map_sum id (map fst) (backtracking_start (\<lambda>n path word. int (length path) = n) log_event n b words [])"
  unfolding find_length_n_paths_def
  by (subst backtracking_start_replay,
      cases "backtracking_start (\<lambda>n path word. int (length path) = n) log_event n b words []")
     (simp_all add: replay_append_path)

lemma find_length_n_words_events:
  "find_length_n_words n b words =
     map_sum id (map fst) (backtracking_start (\<lambda>n path word. int (length word) = n) log_event n b words [])"
  unfolding find_length_n_words_def
  by (subst backtracking_start_replay,
      cases "backtracking_start (\<lambda>n path word. int (length word) = n) log_event n b words []")
     (simp_all add: replay_append_path)

lemma find_length_n_words_sound:
  assumes "find_length_n_words n b words = Inr ps" and "p \<in> set ps"
  shows "simple_path b p \<and> (\<exists>w. spelled_word b p = Inr w \<and> int (length w) = n \<and> w \<in> set words)"
proof -
  from assms(1) obtain events where
    ev: "backtracking_start (\<lambda>n path word. int (length word) = n) log_event n b words [] = Inr events"
    and ps: "ps = map fst events"
    unfolding find_length_n_words_events by (auto simp: map_sum_def split: sum.splits)
  from assms(2) ps obtain e where e: "e \<in> set events" "p = fst e" by auto
  from backtracking_start_events_sound[OF ev e(1)] e(2) show ?thesis
    by (auto simp: sound_event_def)
qed

lemma find_length_n_words_complete:
  assumes "rectangular b" and "symbols_nonempty b"
    and "find_length_n_words n b words = Inr ps"
    and "simple_path b p" and "spelled_word b p = Inr w" and "int (length w) = n" and "w \<in> set words"
  shows "p \<in> set ps"
proof -
  from assms(3) obtain events where
    ev: "backtracking_start (\<lambda>n path word. int (length word) = n) log_event n b words [] = Inr events"
    and ps: "ps = map fst events"
    unfolding find_length_n_words_events by (auto simp: map_sum_def split: sum.splits)
  from assms(4) have "cell_exists b (hd p)" by (cases p) (auto simp: simple_path_def)
  then have "hd p \<in> set (start_coordinates b)" by (rule start_coordinates_cell_exists)
  from backtracking_from_words_complete[OF ev[unfolded backtracking_start_def] assms(1,2,4,5,7,6) this]
  have "(p, w) \<in> set events" .
  with ps show ?thesis by force
qed

lemma find_length_n_paths_simple:
  assumes "find_length_n_paths n b words = Inr ps" and "p \<in> set ps"
  shows "int (length p) = n \<and> simple_path b p \<and> (\<exists>w. spelled_word b p = Inr w \<and> w \<in> set words)"
proof -
  from assms(1) obtain events where
    ev: "backtracking_start (\<lambda>n path word. int (length path) = n) log_event n b words [] = Inr events"
    and ps: "ps = map fst events"
    unfolding find_length_n_paths_events by (auto simp: map_sum_def split: sum.splits)
  from assms(2) ps obtain e where e: "e \<in> set events" "p = fst e" by auto
  from backtracking_start_events_sound[OF ev e(1)] e(2) show ?thesis
    by (auto simp: sound_event_def)
qed

lemma find_length_n_paths_no_error:
  "rectangular b \<Longrightarrow> \<exists>ps. find_length_n_paths n b words = Inr ps"
  unfolding find_length_n_paths_def by (rule backtracking_start_no_error)

lemma find_length_n_words_no_error:
  "rectangular b \<Longrightarrow> \<exists>ps. find_length_n_words n b words = Inr ps"
  unfolding find_length_n_words_def by (rule backtracking_start_no_error)

text \<open>
  C1: every path in the list returned by \<open>find_length_n_paths\<close> has length \<open>n\<close>, consists
  of distinct cells of the board with every two consecutive cells neighbours, and its
  spelled word is one of the words.
\<close>

theorem find_length_n_paths_sound:
  assumes "find_length_n_paths n b words = Inr ps" and "p \<in> set ps"
  shows "int (length p) = n \<and> distinct p \<and> list_all (cell_exists b) p \<and>
         successively are_neighbours p \<and> (\<exists>w. spelled_word b p = Inr w \<and> w \<in> set words)"
  using find_length_n_paths_simple[OF assms] by (auto simp: simple_path_def)

theorem find_length_n_paths_sound_witness:
  "find_length_n_paths 3 [[''C'', ''A'', ''T''], [''X'', ''X'', ''X''], [''X'', ''X'', ''X'']]
     [''CAT'', ''AT'', ''CA''] = Inr [[(0, 0), (0, 1), (0, 2)]] \<and>
   int (length ([(0, 0), (0, 1), (0, 2)] :: path)) = 3 \<and>
   distinct ([(0, 0), (0, 1), (0, 2)] :: path) \<and>
   list_all (cell_exists [[''C'', ''A'', ''T''], [''X'', ''X'', ''X''], [''X'', ''X'', ''X'']])
     [(0, 0), (0, 1), (0, 2)] \<and>
   successively are_neighbours [(0, 0), (0, 1), (0, 2)] \<and>
   (\<exists>w. spelled_word [[''C'', ''A'', ''T''], [''X'', ''X'', ''X''], [''X'', ''X'', ''X'']]
          [(0, 0), (0, 1), (0, 2)] = Inr w \<and> w \<in> set [''CAT'', ''AT'', ''CA''])"
proof -
  have ev: "find_length_n_paths 3 [[''C'', ''A'', ''T''], [''X'', ''X'', ''X''], [''X'', ''X'', ''X'']]
     [''CAT'', ''AT'', ''CA''] = Inr [[(0, 0), (0, 1), (0, 2)]]"
    by code_simp
  have mem: "[(0, 0), (0, 1), (0, 2)] \<in> set ([[(0, 0), (0, 1), (0, 2)]] :: path list)" by simp
  from find_length_n_paths_sound[OF ev mem] ev show ?thesis by blast
qed

text \<open>
  C2: on a grid (rows of equal length, no empty cell symbol) \<open>find_length_n_words\<close>
  returns a list, and the paths in it are exactly the simple paths on the board whose
  spelled word has \<open>n\<close> characters and is one of the words.
\<close>

theorem find_length_n_words_exact:
  assumes "rectangular b" and "symbols_nonempty b"
  shows "\<exists>ps. find_length_n_words n b words = Inr ps \<and>
           set ps = {p. simple_path b p \<and>
                        (\<exists>w. spelled_word b p = Inr w \<and> int (length w) = n \<and> w \<in> set words)}"
proof -
  from find_length_n_words_no_error[OF assms(1)]
  obtain ps where ps: "find_length_n_words n b words = Inr ps" ..
  have "set ps = {p. simple_path b p \<and>
                        (\<exists>w. spelled_word b p = Inr w \<and> int (length w) = n \<and> w \<in> set words)}"
    using find_length_n_words_sound[OF ps] find_length_n_words_complete[OF assms ps] by blast
  with ps show ?thesis by blast
qed

theorem find_length_n_words_exact_witness:
  "find_length_n_words 2 [[''C'', ''A'', ''T''], [''X'', ''X'', ''X''], [''X'', ''X'', ''X'']]
     [''CAT'', ''AT'', ''CA''] = Inr [[(0, 0), (0, 1)], [(0, 1), (0, 2)]] \<and>
   {p. simple_path [[''C'', ''A'', ''T''], [''X'', ''X'', ''X''], [''X'', ''X'', ''X'']] p \<and>
       (\<exists>w. spelled_word [[''C'', ''A'', ''T''], [''X'', ''X'', ''X''], [''X'', ''X'', ''X'']] p = Inr w \<and>
            int (length w) = 2 \<and> w \<in> set [''CAT'', ''AT'', ''CA''])}
     = {[(0, 0), (0, 1)], [(0, 1), (0, 2)]}"
proof -
  let ?b = "[[''C'', ''A'', ''T''], [''X'', ''X'', ''X''], [''X'', ''X'', ''X'']]"
  have r: "rectangular ?b" by (simp add: rectangular_def)
  have s: "symbols_nonempty ?b" by (simp add: symbols_nonempty_def)
  have ev: "find_length_n_words 2 ?b [''CAT'', ''AT'', ''CA''] = Inr [[(0, 0), (0, 1)], [(0, 1), (0, 2)]]"
    by code_simp
  from find_length_n_words_exact[OF r s, of 2 "[''CAT'', ''AT'', ''CA'']"] ev
  show ?thesis by auto
qed

lemma filter_words_empty: "filter_words_set_by_prefix {} pre = {}"
  by (simp add: filter_words_set_by_prefix_def)

lemma backtracking_from_no_words:
  "\<forall>c \<in> set cs. cell_exists b c \<Longrightarrow> backtracking_from stop upd n b {} d cs = Inr d"
  by (induction cs) (auto simp: get_value_of_cell filter_words_empty)

lemma backtracking_start_no_words:
  "backtracking_start stop upd n b [] d = Inr d"
  unfolding backtracking_start_def
  by (simp add: backtracking_from_no_words cell_exists_start_coordinates)

lemma search_word_lengths_no_words: "search_word_lengths b [] d word_lengths = Inr d"
  by (induction word_lengths) (simp_all add: backtracking_start_no_words)

text \<open>
  C4: for \<open>n \<le> 0\<close> both \<open>find_length_n_paths\<close> and \<open>find_length_n_words\<close> return the
  empty list and raise nothing, on a board with rows of equal length (and, for the search by
  word length, without empty cell symbols); and with no words all three searches return the
  empty list on every board.
\<close>

theorem search_empty_results:
  "(rectangular b \<longrightarrow> n \<le> 0 \<longrightarrow> find_length_n_paths n b words = Inr []) \<and>
   (rectangular b \<longrightarrow> symbols_nonempty b \<longrightarrow> n \<le> 0 \<longrightarrow> find_length_n_words n b words = Inr []) \<and>
   (words = [] \<longrightarrow>
      find_length_n_paths n b words = Inr [] \<and> find_length_n_words n b words = Inr [] \<and>
      max_score_paths word_lengths b words = Inr [])"
proof (intro conjI impI)
  assume r: "rectangular b" and n: "n \<le> 0"
  from find_length_n_paths_no_error[OF r] obtain ps where ps: "find_length_n_paths n b words = Inr ps"
    by blast
  have "ps = []"
  proof (rule ccontr)
    assume "ps \<noteq> []"
    then obtain p where p: "p \<in> set ps" by (cases ps) auto
    from find_length_n_paths_simple[OF ps p] have "int (length p) = n" and "0 < length p"
      by (auto simp: simple_path_def)
    with n show False by simp
  qed
  with ps show "find_length_n_paths n b words = Inr []" by simp
next
  assume r: "rectangular b" and s: "symbols_nonempty b" and n: "n \<le> 0"
  from find_length_n_words_no_error[OF r] obtain ps where ps: "find_length_n_words n b words = Inr ps"
    by blast
  have "ps = []"
  proof (rule ccontr)
    assume "ps \<noteq> []"
    then obtain p where p: "p \<in> set ps" by (cases ps) auto
    from find_length_n_words_sound[OF ps p] obtain w where
      sp: "simple_path b p" and w: "spelled_word b p = Inr w" "int (length w) = n" by blast
    from sp obtain c cs where pc: "p = c # cs" by (cases p) (auto simp: simple_path_def)
    from sp pc have "list_all (cell_exists b) (c # cs)" by (simp add: simple_path_def)
    from spelled_word_nonempty[OF s this w(1)[unfolded pc]] have "0 < length w" by simp
    with w(2) n show False by simp
  qed
  with ps show "find_length_n_words n b words = Inr []" by simp
next
  assume "words = []"
  then show "find_length_n_paths n b words = Inr []"
    by (simp add: find_length_n_paths_def backtracking_start_no_words)
next
  assume "words = []"
  then show "find_length_n_words n b words = Inr []"
    by (simp add: find_length_n_words_def backtracking_start_no_words)
next
  assume "words = []"
  then show "max_score_paths word_lengths b words = Inr []"
    by (simp add: max_score_paths_def search_word_lengths_no_words)
qed

theorem search_empty_results_witness:
  "find_length_n_paths 0 [[''C'', ''A'', ''T''], [''X'', ''X'', ''X''], [''X'', ''X'', ''X'']]
     [''CAT'', ''AT'', ''CA''] = Inr [] \<and>
   find_length_n_words (- 1) [[''C'', ''A'', ''T''], [''X'', ''X'', ''X''], [''X'', ''X'', ''X'']]
     [''CAT'', ''AT'', ''CA''] = Inr [] \<and>
   find_length_n_paths 3 [[''C'', ''A'', ''T''], [''X'', ''X'', ''X''], [''X'', ''X'', ''X'']] [] = Inr [] \<and>
   find_length_n_words 3 [[''C'', ''A'', ''T''], [''X'', ''X'', ''X''], [''X'', ''X'', ''X'']] [] = Inr [] \<and>
   max_score_paths [] [[''C'', ''A'', ''T''], [''X'', ''X'', ''X''], [''X'', ''X'', ''X'']] [] = Inr []"
proof -
  let ?b = "[[''C'', ''A'', ''T''], [''X'', ''X'', ''X''], [''X'', ''X'', ''X'']]"
  have r: "rectangular ?b" by (simp add: rectangular_def)
  have s: "symbols_nonempty ?b" by (simp add: symbols_nonempty_def)
  have z: "(0::int) \<le> 0" "(- 1 :: int) \<le> 0" by simp_all
  note t = search_empty_results
  from t[of ?b 0 "[''CAT'', ''AT'', ''CA'']"] r z(1)
  have a: "find_length_n_paths 0 ?b [''CAT'', ''AT'', ''CA''] = Inr []" by blast
  from t[of ?b "- 1" "[''CAT'', ''AT'', ''CA'']"] r s z(2)
  have b: "find_length_n_words (- 1) ?b [''CAT'', ''AT'', ''CA''] = Inr []" by blast
  from t[of ?b 3 "[]" "[]"]
  have c: "find_length_n_paths 3 ?b [] = Inr [] \<and> find_length_n_words 3 ?b [] = Inr [] \<and>
           max_score_paths [] ?b [] = Inr []" by blast
  from a b c show ?thesis by blast
qed

section \<open>The paths of maximal score\<close>

lemma update_dict_paths_keys:
  "map fst (update_dict_paths d p w) = (if w \<in> set (map fst d) then map fst d else map fst d @ [w])"
  by (auto simp: update_dict_paths_def split_beta)

lemma update_dict_paths_image:
  "(k, l) \<in> (\<lambda>(key, lst_paths). if key = w then (key, lst_paths @ [p]) else (key, lst_paths)) ` S \<longleftrightarrow>
     (k \<noteq> w \<and> (k, l) \<in> S) \<or> (k = w \<and> (\<exists>l0. l = l0 @ [p] \<and> (w, l0) \<in> S))"
proof
  assume "(k, l) \<in> (\<lambda>(key, lst_paths). if key = w then (key, lst_paths @ [p]) else (key, lst_paths)) ` S"
  then obtain k0 l0 where m: "(k0, l0) \<in> S"
    and eq: "(k, l) = (if k0 = w then (k0, l0 @ [p]) else (k0, l0))"
    by auto
  show "(k \<noteq> w \<and> (k, l) \<in> S) \<or> (k = w \<and> (\<exists>l0. l = l0 @ [p] \<and> (w, l0) \<in> S))"
  proof (cases "k0 = w")
    case True
    with eq m show ?thesis by auto
  next
    case False
    with eq m show ?thesis by auto
  qed
next
  assume r: "(k \<noteq> w \<and> (k, l) \<in> S) \<or> (k = w \<and> (\<exists>l0. l = l0 @ [p] \<and> (w, l0) \<in> S))"
  show "(k, l) \<in> (\<lambda>(key, lst_paths). if key = w then (key, lst_paths @ [p]) else (key, lst_paths)) ` S"
  proof (cases "k = w")
    case False
    with r have "(k, l) \<in> S" by simp
    then show ?thesis using False by (intro image_eqI[of _ _ "(k, l)"]) simp_all
  next
    case True
    with r obtain l0 where "l = l0 @ [p]" "(w, l0) \<in> S" by auto
    then show ?thesis using True by (intro image_eqI[of _ _ "(w, l0)"]) simp_all
  qed
qed

lemma update_dict_paths_entry:
  "(k, l) \<in> set (update_dict_paths d p w) \<longleftrightarrow>
     (k \<noteq> w \<and> (k, l) \<in> set d) \<or>
     (k = w \<and> (\<exists>l0. l = l0 @ [p] \<and> ((w, l0) \<in> set d \<or> (w \<notin> set (map fst d) \<and> l0 = []))))"
proof (cases "w \<in> set (map fst d)")
  case True
  then have "set (update_dict_paths d p w) =
      (\<lambda>(key, lst_paths). if key = w then (key, lst_paths @ [p]) else (key, lst_paths)) ` set d"
    by (simp add: update_dict_paths_def)
  with True show ?thesis by (simp only: update_dict_paths_image) blast
next
  case False
  then have n: "\<And>l0. (w, l0) \<notin> set d" by (auto simp: image_iff)
  from False have "set (update_dict_paths d p w) =
      (\<lambda>(key, lst_paths). if key = w then (key, lst_paths @ [p]) else (key, lst_paths)) `
        (insert (w, []) (set d))"
    by (simp add: update_dict_paths_def)
  with False n show ?thesis by (simp only: update_dict_paths_image) auto
qed

lemma update_dict_paths_append:
  assumes "w \<notin> set (map fst d)"
  shows "update_dict_paths (d @ g) p w = d @ update_dict_paths g p w"
proof -
  have "map (\<lambda>(key, lst_paths). if key = w then (key, lst_paths @ [p]) else (key, lst_paths)) d = d"
    using assms by (intro map_idI) (auto simp: image_iff)
  with assms show ?thesis by (simp add: update_dict_paths_def)
qed

lemma replay_append: "replay upd d (xs @ ys) = replay upd (replay upd d xs) ys"
  by (simp add: replay_def)

lemma replay_dict_disjoint:
  "snd ` set events \<inter> set (map fst d) = {} \<Longrightarrow>
   replay update_dict_paths d events = d @ replay update_dict_paths [] events"
proof (induction events rule: rev_induct)
  case Nil
  then show ?case by (simp add: replay_def)
next
  case (snoc e events)
  obtain p w where e: "e = (p, w)" by (cases e)
  from snoc.prems e have w: "w \<notin> set (map fst d)" and d: "snd ` set events \<inter> set (map fst d) = {}"
    by auto
  from snoc.IH[OF d] w show ?case
    by (simp add: e replay_snoc update_dict_paths_append)
qed

lemma replay_dict_groups:
  "distinct (map fst (replay update_dict_paths [] events)) \<and>
   set (map fst (replay update_dict_paths [] events)) = snd ` set events \<and>
   (\<forall>(w, l) \<in> set (replay update_dict_paths [] events).
      l = map fst (filter (\<lambda>e. snd e = w) events))"
proof (induction events rule: rev_induct)
  case Nil
  then show ?case by (simp add: replay_def)
next
  case (snoc e events)
  obtain p w where e: "e = (p, w)" by (cases e)
  let ?G = "replay update_dict_paths [] events"
  from snoc.IH have d: "distinct (map fst ?G)" and k: "set (map fst ?G) = snd ` set events"
    and g: "\<And>k l. (k, l) \<in> set ?G \<Longrightarrow> l = map fst (filter (\<lambda>e. snd e = k) events)"
    by auto
  have G': "replay update_dict_paths [] (events @ [e]) = update_dict_paths ?G p w"
    by (simp add: e replay_snoc)
  have 1: "distinct (map fst (update_dict_paths ?G p w))"
    using d by (simp add: update_dict_paths_keys)
  have 2: "set (map fst (update_dict_paths ?G p w)) = snd ` set (events @ [e])"
    using k by (auto simp: update_dict_paths_keys e)
  have 3: "l = map fst (filter (\<lambda>e. snd e = k) (events @ [e]))"
    if "(k, l) \<in> set (update_dict_paths ?G p w)" for k l
  proof (cases "k = w")
    case False
    with that have "(k, l) \<in> set ?G" by (simp add: update_dict_paths_entry)
    from g[OF this] False show ?thesis by (simp add: e)
  next
    case True
    with that obtain l0 where l: "l = l0 @ [p]"
      and l0: "(w, l0) \<in> set ?G \<or> (w \<notin> set (map fst ?G) \<and> l0 = [])"
      by (auto simp: update_dict_paths_entry)
    have "l0 = map fst (filter (\<lambda>e. snd e = w) events)"
    proof (cases "(w, l0) \<in> set ?G")
      case True
      then show ?thesis by (rule g)
    next
      case False
      with l0 have "w \<notin> snd ` set events" "l0 = []" using k by auto
      then have "filter (\<lambda>e. snd e = w) events = []" by (auto simp: filter_empty_conv)
      with \<open>l0 = []\<close> show ?thesis by simp
    qed
    with l True show ?thesis by (simp add: e)
  qed
  from 1 2 3 show ?case unfolding G' by blast
qed

lemma foldl_first_max:
  "\<exists>before after. p0 # ps = before @ foldl (\<lambda>best q. if length best < length q then q else best) p0 ps # after \<and>
     (\<forall>q \<in> set before. length q < length (foldl (\<lambda>best q. if length best < length q then q else best) p0 ps)) \<and>
     (\<forall>q \<in> set after. length q \<le> length (foldl (\<lambda>best q. if length best < length q then q else best) p0 ps))"
proof (induction ps rule: rev_induct)
  case Nil
  have "[p0] = [] @ p0 # []" by simp
  then show ?case by force
next
  case (snoc x ps)
  let ?f = "\<lambda>best q. if length best < length q then q else best"
  let ?m = "foldl ?f p0 ps"
  from snoc.IH obtain before after where dec: "p0 # ps = before @ ?m # after"
    and b: "\<forall>q \<in> set before. length q < length ?m"
    and a: "\<forall>q \<in> set after. length q \<le> length ?m"
    by blast
  show ?case
  proof (cases "length ?m < length x")
    case True
    then have r: "foldl ?f p0 (ps @ [x]) = x" by simp
    have "p0 # ps @ [x] = (p0 # ps) @ x # []" by simp
    moreover have "\<forall>q \<in> set (p0 # ps). length q < length x"
      using True b a unfolding dec by fastforce
    ultimately show ?thesis unfolding r by (metis empty_iff list.set(1))
  next
    case False
    then have r: "foldl ?f p0 (ps @ [x]) = ?m" by simp
    have "p0 # ps @ [x] = before @ ?m # (after @ [x])" using dec by simp
    moreover have "\<forall>q \<in> set (after @ [x]). length q \<le> length ?m" using a False by auto
    ultimately show ?thesis unfolding r using b by blast
  qed
qed

lemma py_max_by_len_first_max:
  assumes "py_max_by_len l = Inr p"
  shows "\<exists>before after. l = before @ p # after \<and>
           (\<forall>q \<in> set before. length q < length p) \<and> (\<forall>q \<in> set after. length q \<le> length p)"
proof (cases l)
  case Nil
  with assms show ?thesis by simp
next
  case (Cons p0 ps)
  with assms have "p = foldl (\<lambda>best q. if length best < length q then q else best) p0 ps" by simp
  with foldl_first_max[of p0 ps] Cons show ?thesis by simp
qed

lemma py_max_by_len_nonempty: "l \<noteq> [] \<Longrightarrow> \<exists>p. py_max_by_len l = Inr p"
  by (cases l) simp_all

lemma longest_paths_all:
  "\<forall>l \<in> set ls. l \<noteq> [] \<Longrightarrow>
   \<exists>ps. longest_paths ls = Inr ps \<and> list_all2 (\<lambda>l p. py_max_by_len l = Inr p) ls ps"
proof (induction ls)
  case Nil
  then show ?case by simp
next
  case (Cons l ls)
  from Cons.prems obtain p where p: "py_max_by_len l = Inr p"
    using py_max_by_len_nonempty[of l] by auto
  from Cons.IH Cons.prems obtain ps where "longest_paths ls = Inr ps"
    "list_all2 (\<lambda>l p. py_max_by_len l = Inr p) ls ps" by auto
  with p show ?case by simp
qed

lemma word_pass_event:
  assumes "backtracking_start (\<lambda>n path word. int (length word) = n) log_event len b words [] = Inr events"
    and "e \<in> set events"
  shows "int (length (snd e)) = len" and "spelled_word b (fst e) = Inr (snd e)"
    and "snd e \<in> set words" and "simple_path b (fst e)"
  using backtracking_start_events_sound[OF assms] by (simp_all add: sound_event_def)

lemma word_pass_replay:
  assumes "backtracking_start (\<lambda>n path word. int (length word) = n) update_dict_paths len b words d = Inr d1"
  shows "\<exists>events. backtracking_start (\<lambda>n path word. int (length word) = n) log_event len b words [] = Inr events \<and>
           d1 = replay update_dict_paths d events"
  using assms by (subst (asm) backtracking_start_replay) (auto simp: map_sum_def split: sum.splits)

lemma search_word_lengths_entries:
  assumes "search_word_lengths b words d lens = Inr D" and "distinct lens"
    and "\<forall>(w, l) \<in> set d. int (length w) \<notin> set lens"
  shows "\<exists>D'. D = d @ D' \<and> distinct (map fst D') \<and>
     (\<forall>w l. (w, l) \<in> set D' \<longrightarrow> int (length w) \<in> set lens \<and>
        (\<exists>events. backtracking_start (\<lambda>n path word. int (length word) = n) log_event
                    (int (length w)) b words [] = Inr events \<and>
                  l = map fst (filter (\<lambda>e. snd e = w) events) \<and> w \<in> snd ` set events)) \<and>
     (\<forall>len events. len \<in> set lens \<longrightarrow>
        backtracking_start (\<lambda>n path word. int (length word) = n) log_event len b words [] = Inr events
        \<longrightarrow> snd ` set events \<subseteq> set (map fst D'))"
  using assms
proof (induction lens arbitrary: d D)
  case Nil
  then show ?case by simp
next
  case (Cons len lens)
  let ?stop = "\<lambda>n path word. int (length word) = n"
  from Cons.prems(1) obtain d1 where
    pass: "backtracking_start ?stop update_dict_paths len b words d = Inr d1"
    and rest: "search_word_lengths b words d1 lens = Inr D"
    by (cases "backtracking_start ?stop update_dict_paths len b words d") auto
  from word_pass_replay[OF pass] obtain events where
    ev: "backtracking_start ?stop log_event len b words [] = Inr events"
    and d1: "d1 = replay update_dict_paths d events" by blast
  from Cons.prems(2) have dl: "distinct lens" and nl: "len \<notin> set lens" by simp_all
  have evlen: "int (length w) = len" if "w \<in> snd ` set events" for w
    using that word_pass_event(1)[OF ev] by auto
  have "snd ` set events \<inter> set (map fst d) = {}"
  proof (rule ccontr)
    assume "snd ` set events \<inter> set (map fst d) \<noteq> {}"
    then obtain w where w: "w \<in> snd ` set events" and "w \<in> fst ` set d" by auto
    then obtain l where m: "(w, l) \<in> set d" by auto
    from Cons.prems(3) m have "int (length w) \<noteq> len" by auto
    with evlen[OF w] show False by simp
  qed
  from replay_dict_disjoint[OF this] d1
  have d1': "d1 = d @ replay update_dict_paths [] events" by simp
  let ?G = "replay update_dict_paths [] events"
  from replay_dict_groups[of events] have gd: "distinct (map fst ?G)"
    and gk: "set (map fst ?G) = snd ` set events"
    and gl: "\<And>w l. (w, l) \<in> set ?G \<Longrightarrow> l = map fst (filter (\<lambda>e. snd e = w) events)"
    by auto
  have gkey: "w \<in> snd ` set events" if "(w, l) \<in> set ?G" for w l
  proof -
    from that have "fst (w, l) \<in> fst ` set ?G" by (rule imageI)
    then show ?thesis using gk by simp
  qed
  have pre: "\<forall>(w, l) \<in> set d1. int (length w) \<notin> set lens"
  proof (clarify)
    fix w l assume m: "(w, l) \<in> set d1" and c: "int (length w) \<in> set lens"
    from m d1' have "(w, l) \<in> set d \<or> (w, l) \<in> set ?G" by auto
    then show False
    proof
      assume "(w, l) \<in> set d"
      with Cons.prems(3) c show False by auto
    next
      assume "(w, l) \<in> set ?G"
      from evlen[OF gkey[OF this]] c nl show False by simp
    qed
  qed
  from Cons.IH[OF rest dl pre] obtain D2 where D: "D = d1 @ D2" and dd: "distinct (map fst D2)"
    and en0: "\<forall>w l. (w, l) \<in> set D2 \<longrightarrow> int (length w) \<in> set lens \<and>
        (\<exists>events. backtracking_start ?stop log_event (int (length w)) b words [] = Inr events \<and>
                  l = map fst (filter (\<lambda>e. snd e = w) events) \<and> w \<in> snd ` set events)"
    and cv0: "\<forall>len events. len \<in> set lens \<longrightarrow>
        backtracking_start ?stop log_event len b words [] = Inr events
        \<longrightarrow> snd ` set events \<subseteq> set (map fst D2)"
    by (elim exE conjE)
  have en: "int (length w) \<in> set lens \<and>
        (\<exists>events. backtracking_start ?stop log_event (int (length w)) b words [] = Inr events \<and>
                  l = map fst (filter (\<lambda>e. snd e = w) events) \<and> w \<in> snd ` set events)"
    if "(w, l) \<in> set D2" for w l using en0 that by (elim allE[of _ w] allE[of _ l] impE)
  have cv: "snd ` set events \<subseteq> set (map fst D2)"
    if "len \<in> set lens" "backtracking_start ?stop log_event len b words [] = Inr events"
    for len events using cv0 that by (elim allE[of _ len] allE[of _ events] impE)
  have 1: "D = d @ (?G @ D2)" using D d1' by simp
  have disj: "set (map fst ?G) \<inter> set (map fst D2) = {}"
  proof (rule ccontr)
    assume "set (map fst ?G) \<inter> set (map fst D2) \<noteq> {}"
    then obtain w where w: "w \<in> snd ` set events" and "w \<in> fst ` set D2"
      unfolding gk by auto
    then obtain l where m: "(w, l) \<in> set D2" by auto
    from en[OF m] evlen[OF w] nl show False by simp
  qed
  have 2: "distinct (map fst (?G @ D2))" using gd dd disj by simp
  have 3: "int (length w) \<in> set (len # lens) \<and>
        (\<exists>events. backtracking_start ?stop log_event (int (length w)) b words [] = Inr events \<and>
                  l = map fst (filter (\<lambda>e. snd e = w) events) \<and> w \<in> snd ` set events)"
    if "(w, l) \<in> set (?G @ D2)" for w l
  proof (cases "(w, l) \<in> set ?G")
    case True
    from gkey[OF True] have k: "w \<in> snd ` set events" .
    from evlen[OF k] ev gl[OF True] k show ?thesis by auto
  next
    case False
    with that have "(w, l) \<in> set D2" by simp
    from en[OF this] show ?thesis by simp
  qed
  have 4: "snd ` set evs \<subseteq> set (map fst (?G @ D2))"
    if "k \<in> set (len # lens)" "backtracking_start ?stop log_event k b words [] = Inr evs" for k evs
  proof (cases "k = len")
    case True
    with that(2) ev have "evs = events" by simp
    with gk show ?thesis by auto
  next
    case False
    with that(1) have "k \<in> set lens" by simp
    from cv[OF this that(2)] show ?thesis by auto
  qed
  show ?case
  proof (intro exI[of _ "?G @ D2"] conjI allI impI)
    show "D = d @ ?G @ D2" by (rule 1)
    show "distinct (map fst (?G @ D2))" by (rule 2)
  next
    fix w l assume "(w, l) \<in> set (?G @ D2)"
    from 3[OF this] show "int (length w) \<in> set (len # lens)" ..
  next
    fix w l assume "(w, l) \<in> set (?G @ D2)"
    from 3[OF this] show "\<exists>events. backtracking_start ?stop log_event (int (length w)) b words [] = Inr events \<and>
                  l = map fst (filter (\<lambda>e. snd e = w) events) \<and> w \<in> snd ` set events" ..
  next
    fix k evs assume "k \<in> set (len # lens)" "backtracking_start ?stop log_event k b words [] = Inr evs"
    then show "snd ` set evs \<subseteq> set (map fst (?G @ D2))" by (rule 4)
  qed
qed

lemma search_word_lengths_no_error:
  "rectangular b \<Longrightarrow> \<exists>D. search_word_lengths b words d lens = Inr D"
proof (induction lens arbitrary: d)
  case Nil
  then show ?case by simp
next
  case (Cons len lens)
  have "\<exists>d1. backtracking_start (\<lambda>n path word. int (length word) = n) update_dict_paths
                     len b words d = Inr d1"
    by (rule backtracking_start_no_error[OF Cons.prems])
  then obtain d1 where "backtracking_start (\<lambda>n path word. int (length word) = n) update_dict_paths
                     len b words d = Inr d1" ..
  with Cons.IH[OF Cons.prems, of d1] show ?case by simp
qed

lemma filter_spelled_events:
  assumes "\<forall>e \<in> set events. spelled_word b (fst e) = Inr (snd e)"
  shows "filter (\<lambda>q. spelled_word b q = Inr w) (map fst events) =
         map fst (filter (\<lambda>e. snd e = w) events)"
  using assms by (induction events) auto

lemma max_score_dict:
  assumes "rectangular b" and "symbols_nonempty b" and "iteration_order lens words"
  shows "\<exists>D. search_word_lengths b words [] lens = Inr D \<and> distinct (map fst D) \<and>
     (\<forall>w l. (w, l) \<in> set D \<longrightarrow> w \<in> set words \<and> l \<noteq> [] \<and>
        (\<exists>found. find_length_n_words (int (length w)) b words = Inr found \<and>
                 l = filter (\<lambda>q. spelled_word b q = Inr w) found)) \<and>
     (\<forall>q w. simple_path b q \<longrightarrow> spelled_word b q = Inr w \<longrightarrow> w \<in> set words \<longrightarrow>
        w \<in> set (map fst D))"
proof -
  let ?stop = "\<lambda>n path word. int (length word) = n"
  from search_word_lengths_no_error[OF assms(1)] obtain D where
    D: "search_word_lengths b words [] lens = Inr D" by blast
  from assms(3) have dl: "distinct lens" and sl: "set lens = (\<lambda>s. int (length s)) ` set words"
    by (simp_all add: iteration_order_def)
  have "\<forall>(w, l) \<in> set []. int (length w) \<notin> set lens" by simp
  from search_word_lengths_entries[OF D dl this]
  have dd: "distinct (map fst D)"
    and en0: "\<forall>w l. (w, l) \<in> set D \<longrightarrow> int (length w) \<in> set lens \<and>
        (\<exists>events. backtracking_start ?stop log_event (int (length w)) b words [] = Inr events \<and>
                  l = map fst (filter (\<lambda>e. snd e = w) events) \<and> w \<in> snd ` set events)"
    and cv0: "\<forall>len events. len \<in> set lens \<longrightarrow>
        backtracking_start ?stop log_event len b words [] = Inr events
        \<longrightarrow> snd ` set events \<subseteq> set (map fst D)"
    by simp_all
  have 1: "w \<in> set words \<and> l \<noteq> [] \<and>
        (\<exists>found. find_length_n_words (int (length w)) b words = Inr found \<and>
                 l = filter (\<lambda>q. spelled_word b q = Inr w) found)"
    if m: "(w, l) \<in> set D" for w l
  proof -
    from en0 m obtain events where
      ev: "backtracking_start ?stop log_event (int (length w)) b words [] = Inr events"
      and l: "l = map fst (filter (\<lambda>e. snd e = w) events)" and k: "w \<in> snd ` set events"
      by blast
    from k obtain e where e: "e \<in> set events" "snd e = w" by auto
    from word_pass_event(3)[OF ev e(1)] e(2) have w: "w \<in> set words" by simp
    from e have "filter (\<lambda>e. snd e = w) events \<noteq> []" by (auto simp: filter_empty_conv)
    with l have ne: "l \<noteq> []" by simp
    have f: "find_length_n_words (int (length w)) b words = Inr (map fst events)"
      by (simp add: find_length_n_words_events ev)
    have "\<forall>e \<in> set events. spelled_word b (fst e) = Inr (snd e)"
      using word_pass_event(2)[OF ev] by blast
    from filter_spelled_events[OF this] l
    have "l = filter (\<lambda>q. spelled_word b q = Inr w) (map fst events)" by simp
    with w ne f show ?thesis by blast
  qed
  have 2: "w \<in> set (map fst D)"
    if sp: "simple_path b q" and sq: "spelled_word b q = Inr w" and w: "w \<in> set words" for q w
  proof -
    from w sl have len: "int (length w) \<in> set lens" by auto
    have "\<exists>events. backtracking_start ?stop log_event (int (length w)) b words [] = Inr events"
      by (rule backtracking_start_no_error[OF assms(1)])
    then obtain events where
      ev: "backtracking_start ?stop log_event (int (length w)) b words [] = Inr events" ..
    from sp have "cell_exists b (hd q)" by (cases q) (auto simp: simple_path_def)
    then have "hd q \<in> set (start_coordinates b)" by (rule start_coordinates_cell_exists)
    from backtracking_from_words_complete[OF ev[unfolded backtracking_start_def] assms(1,2) sp sq w refl this]
    have "(q, w) \<in> set events" .
    then have "w \<in> snd ` set events" by force
    with cv0 len ev show ?thesis by blast
  qed
  from D dd 1 2 show ?thesis by blast
qed

text \<open>
  C3: on a grid (rows of equal length, no empty cell symbol), for every order in which the
  set of word lengths is visited, \<open>max_score_paths\<close> returns a list of paths whose
  spelled words are pairwise distinct. Each returned path \<open>p\<close> spells one of the words, and
  among the paths with that word in the order in which the traversal finds them (the list
  of \<open>find_length_n_words\<close> for the length of the word) every path before \<open>p\<close> is
  strictly shorter and every path after \<open>p\<close> is at most as long; no simple path on the
  board with the same word has more cells than \<open>p\<close>. Every word spelled by some simple path
  has a path in the result.
\<close>

theorem max_score_paths_longest_first:
  assumes "rectangular b" and "symbols_nonempty b" and "iteration_order word_lengths words"
  shows "\<exists>ps. max_score_paths word_lengths b words = Inr ps \<and>
           distinct (map (spelled_word b) ps) \<and>
           (\<forall>p \<in> set ps. \<exists>w found before after.
              spelled_word b p = Inr w \<and> w \<in> set words \<and>
              find_length_n_words (int (length w)) b words = Inr found \<and>
              filter (\<lambda>q. spelled_word b q = Inr w) found = before @ p # after \<and>
              (\<forall>q \<in> set before. length q < length p) \<and>
              (\<forall>q \<in> set after. length q \<le> length p) \<and>
              (\<forall>q. simple_path b q \<longrightarrow> spelled_word b q = Inr w \<longrightarrow> length q \<le> length p)) \<and>
           (\<forall>q w. simple_path b q \<longrightarrow> spelled_word b q = Inr w \<longrightarrow> w \<in> set words \<longrightarrow>
              (\<exists>p \<in> set ps. spelled_word b p = Inr w))"
proof -
  from max_score_dict[OF assms] obtain D where
    D: "search_word_lengths b words [] word_lengths = Inr D" and dd: "distinct (map fst D)"
    and en0: "\<forall>w l. (w, l) \<in> set D \<longrightarrow> w \<in> set words \<and> l \<noteq> [] \<and>
        (\<exists>found. find_length_n_words (int (length w)) b words = Inr found \<and>
                 l = filter (\<lambda>q. spelled_word b q = Inr w) found)"
    and cv: "\<forall>q w. simple_path b q \<longrightarrow> spelled_word b q = Inr w \<longrightarrow> w \<in> set words \<longrightarrow>
        w \<in> set (map fst D)"
    by (elim exE conjE)
  have "\<forall>l \<in> set (map snd D). l \<noteq> []" using en0 by auto
  from longest_paths_all[OF this] obtain ps where
    lp: "longest_paths (map snd D) = Inr ps"
    and rel: "list_all2 (\<lambda>l p. py_max_by_len l = Inr p) (map snd D) ps" by blast
  from D lp have res: "max_score_paths word_lengths b words = Inr ps"
    by (simp add: max_score_paths_def)
  from rel have rel': "list_all2 (\<lambda>e p. py_max_by_len (snd e) = Inr p) D ps"
    by (simp add: list_all2_map1)
  have entry: "\<exists>found before after.
              spelled_word b p = Inr w \<and> w \<in> set words \<and>
              find_length_n_words (int (length w)) b words = Inr found \<and>
              filter (\<lambda>q. spelled_word b q = Inr w) found = before @ p # after \<and>
              (\<forall>q \<in> set before. length q < length p) \<and>
              (\<forall>q \<in> set after. length q \<le> length p) \<and>
              (\<forall>q. simple_path b q \<longrightarrow> spelled_word b q = Inr w \<longrightarrow> length q \<le> length p)"
    if m: "(w, l) \<in> set D" and mx: "py_max_by_len l = Inr p" for w l p
  proof -
    from en0 m obtain found where w: "w \<in> set words"
      and f: "find_length_n_words (int (length w)) b words = Inr found"
      and l: "l = filter (\<lambda>q. spelled_word b q = Inr w) found" by blast
    from py_max_by_len_first_max[OF mx] obtain before after where
      dec: "l = before @ p # after" and bf: "\<forall>q \<in> set before. length q < length p"
      and af: "\<forall>q \<in> set after. length q \<le> length p" by blast
    from dec have "p \<in> set l" by simp
    with l have sp: "spelled_word b p = Inr w" by simp
    have mxl: "length q \<le> length p" if "simple_path b q" "spelled_word b q = Inr w" for q
    proof -
      from find_length_n_words_complete[OF assms(1,2) f that refl w] that(2) l
      have "q \<in> set l" by simp
      with dec bf af show ?thesis by fastforce
    qed
    from sp w f l dec bf af mxl show ?thesis by blast
  qed
  have spell: "list_all2 (\<lambda>e p. Inr (fst e) = spelled_word b p) D ps"
  proof (rule list.rel_mono_strong[OF rel'])
    fix e p assume "e \<in> set D" "py_max_by_len (snd e) = Inr p"
    with entry[of "fst e" "snd e" p] show "Inr (fst e) = spelled_word b p" by auto
  qed
  have eq: "map (spelled_word b) ps = map (\<lambda>e. Inr (fst e)) D"
  proof (rule nth_equalityI)
    show "length (map (spelled_word b) ps) = length (map (\<lambda>e. Inr (fst e)) D)"
      using spell by (simp add: list_all2_lengthD)
  next
    fix i assume "i < length (map (spelled_word b) ps)"
    then show "map (spelled_word b) ps ! i = map (\<lambda>e. Inr (fst e)) D ! i"
      using spell by (simp add: list_all2_conv_all_nth)
  qed
  have "distinct (map Inr (map fst D) :: (py_error + string) list)"
    using dd by (subst distinct_map) (simp add: inj_on_def)
  then have dist: "distinct (map (spelled_word b) ps)"
    unfolding eq by (simp add: comp_def)
  have each: "\<forall>p \<in> set ps. \<exists>w found before after.
              spelled_word b p = Inr w \<and> w \<in> set words \<and>
              find_length_n_words (int (length w)) b words = Inr found \<and>
              filter (\<lambda>q. spelled_word b q = Inr w) found = before @ p # after \<and>
              (\<forall>q \<in> set before. length q < length p) \<and>
              (\<forall>q \<in> set after. length q \<le> length p) \<and>
              (\<forall>q. simple_path b q \<longrightarrow> spelled_word b q = Inr w \<longrightarrow> length q \<le> length p)"
  proof
    fix p assume "p \<in> set ps"
    then obtain i where i: "i < length ps" "ps ! i = p" by (auto simp: in_set_conv_nth)
    from rel' i have "i < length D" "py_max_by_len (snd (D ! i)) = Inr p"
      by (auto simp: list_all2_conv_all_nth)
    with entry[of "fst (D ! i)" "snd (D ! i)" p]
    show "\<exists>w found before after.
              spelled_word b p = Inr w \<and> w \<in> set words \<and>
              find_length_n_words (int (length w)) b words = Inr found \<and>
              filter (\<lambda>q. spelled_word b q = Inr w) found = before @ p # after \<and>
              (\<forall>q \<in> set before. length q < length p) \<and>
              (\<forall>q \<in> set after. length q \<le> length p) \<and>
              (\<forall>q. simple_path b q \<longrightarrow> spelled_word b q = Inr w \<longrightarrow> length q \<le> length p)"
      by auto
  qed
  have cover: "\<forall>q w. simple_path b q \<longrightarrow> spelled_word b q = Inr w \<longrightarrow> w \<in> set words \<longrightarrow>
              (\<exists>p \<in> set ps. spelled_word b p = Inr w)"
  proof (intro allI impI)
    fix q w assume "simple_path b q" "spelled_word b q = Inr w" "w \<in> set words"
    with cv have "w \<in> set (map fst D)" by blast
    then have "Inr w \<in> set (map (\<lambda>e. Inr (fst e)) D)" by auto
    then have "Inr w \<in> set (map (spelled_word b) ps)" unfolding eq .
    then show "\<exists>p \<in> set ps. spelled_word b p = Inr w" by auto
  qed
  from res dist each cover show ?thesis by blast
qed

theorem max_score_paths_longest_first_witness:
  "max_score_paths [2] [[''Qu'', ''Q'', ''u'']] [''Qu''] = Inr [[(0, 1), (0, 2)]] \<and>
   find_length_n_words 2 [[''Qu'', ''Q'', ''u'']] [''Qu''] = Inr [[(0, 0)], [(0, 1), (0, 2)]] \<and>
   {q. simple_path [[''Qu'', ''Q'', ''u'']] q \<and>
       spelled_word [[''Qu'', ''Q'', ''u'']] q = Inr ''Qu'' \<and> 2 < length q} = {}"
proof -
  let ?b = "[[''Qu'', ''Q'', ''u'']]"
  let ?p = "[(0, 1), (0, 2)] :: path"
  have r: "rectangular ?b" by (simp add: rectangular_def)
  have s: "symbols_nonempty ?b" by (simp add: symbols_nonempty_def)
  have io: "iteration_order [2] [''Qu'']" by (simp add: iteration_order_def)
  have ev: "max_score_paths [2] ?b [''Qu''] = Inr [?p]" by code_simp
  have fw: "find_length_n_words 2 ?b [''Qu''] = Inr [[(0, 0)], [(0, 1), (0, 2)]]" by code_simp
  have sw: "spelled_word ?b ?p = Inr ''Qu''"
    by (simp add: get_value_by_coordinate_def py_index_def)
  from max_score_paths_longest_first[OF r s io] obtain ps where
    res: "max_score_paths [2] ?b [''Qu''] = Inr ps"
    and each: "\<forall>p \<in> set ps. \<exists>w found before after.
              spelled_word ?b p = Inr w \<and> w \<in> set [''Qu''] \<and>
              find_length_n_words (int (length w)) ?b [''Qu''] = Inr found \<and>
              filter (\<lambda>q. spelled_word ?b q = Inr w) found = before @ p # after \<and>
              (\<forall>q \<in> set before. length q < length p) \<and>
              (\<forall>q \<in> set after. length q \<le> length p) \<and>
              (\<forall>q. simple_path ?b q \<longrightarrow> spelled_word ?b q = Inr w \<longrightarrow> length q \<le> length p)"
    by (elim exE conjE)
  from res ev have "ps = [?p]" by simp
  then have "?p \<in> set ps" by simp
  with each obtain w where "spelled_word ?b ?p = Inr w"
    and mx: "\<forall>q. simple_path ?b q \<longrightarrow> spelled_word ?b q = Inr w \<longrightarrow> length q \<le> length ?p"
    by blast
  with sw have "w = ''Qu''" by simp
  with mx have "\<forall>q. simple_path ?b q \<longrightarrow> spelled_word ?b q = Inr ''Qu'' \<longrightarrow> length q \<le> 2"
    by (simp add: numeral_2_eq_2)
  then have "{q. simple_path ?b q \<and> spelled_word ?b q = Inr ''Qu'' \<and> 2 < length q} = {}"
    by (auto simp: not_less[symmetric])
  with ev fw show ?thesis by blast
qed

end
